theory Spec2Isabelle
  imports Complex_Main "HOL-Library.Sublist" "HOL-Library.Multiset"
begin

section \<open>JavaScript numbers\<close>

text \<open>
  The engine of \<^verbatim>\<open>src/backend/server.js\<close> computes with JavaScript numbers. A computed
  number is modelled as a finite real or one of the three special values of the language.
  Rounding is not modelled: an operation on finite operands whose exact result is a real
  number in the range of a double yields that real number. Signed zeros are not modelled
  either: a zero denominator counts as \<open>+0\<close>. The plain operations \<open>jadd\<close>, \<open>jsub\<close>,
  \<open>jmul\<close>, \<open>jdiv\<close> and \<open>jexp\<close> do not check the range of a finite result; the
  range-checked operations \<open>oadd\<close>, \<open>osub\<close>, \<open>omul\<close>, \<open>odiv\<close> and \<open>oexp\<close> turn a result
  beyond \<^verbatim>\<open>Number.MAX_VALUE\<close> into an infinity. Inputs of the engine (samples, magnitudes,
  stored feature values, the sample rate) are finite and therefore of type \<open>real\<close>.
\<close>

datatype jsnum = Fin real | PInf | NInf | NaN

definition infBySign :: "real \<Rightarrow> jsnum" where
  "infBySign s = (if s = 0 then NaN else if 0 < s then PInf else NInf)"

fun jneg :: "jsnum \<Rightarrow> jsnum" where
  "jneg (Fin a) = Fin (- a)"
| "jneg PInf = NInf"
| "jneg NInf = PInf"
| "jneg NaN = NaN"

fun jadd :: "jsnum \<Rightarrow> jsnum \<Rightarrow> jsnum" where
  "jadd (Fin a) (Fin b) = Fin (a + b)"
| "jadd NaN _ = NaN"
| "jadd _ NaN = NaN"
| "jadd PInf NInf = NaN"
| "jadd NInf PInf = NaN"
| "jadd PInf _ = PInf"
| "jadd _ PInf = PInf"
| "jadd NInf _ = NInf"
| "jadd _ NInf = NInf"

definition jsub :: "jsnum \<Rightarrow> jsnum \<Rightarrow> jsnum" where
  "jsub a b = jadd a (jneg b)"

fun jmul :: "jsnum \<Rightarrow> jsnum \<Rightarrow> jsnum" where
  "jmul (Fin a) (Fin b) = Fin (a * b)"
| "jmul NaN _ = NaN"
| "jmul _ NaN = NaN"
| "jmul (Fin a) PInf = infBySign a"
| "jmul (Fin a) NInf = infBySign (- a)"
| "jmul PInf (Fin b) = infBySign b"
| "jmul NInf (Fin b) = infBySign (- b)"
| "jmul PInf PInf = PInf"
| "jmul PInf NInf = NInf"
| "jmul NInf PInf = NInf"
| "jmul NInf NInf = PInf"

fun jdiv :: "jsnum \<Rightarrow> jsnum \<Rightarrow> jsnum" where
  "jdiv (Fin a) (Fin b) = (if b = 0 then infBySign a else Fin (a / b))"
| "jdiv NaN _ = NaN"
| "jdiv _ NaN = NaN"
| "jdiv (Fin a) PInf = Fin 0"
| "jdiv (Fin a) NInf = Fin 0"
| "jdiv PInf (Fin b) = (if 0 \<le> b then PInf else NInf)"
| "jdiv NInf (Fin b) = (if 0 \<le> b then NInf else PInf)"
| "jdiv PInf PInf = NaN"
| "jdiv PInf NInf = NaN"
| "jdiv NInf PInf = NaN"
| "jdiv NInf NInf = NaN"

fun jsqrt :: "jsnum \<Rightarrow> jsnum" where
  "jsqrt (Fin a) = (if a < 0 then NaN else Fin (sqrt a))"
| "jsqrt PInf = PInf"
| "jsqrt NInf = NaN"
| "jsqrt NaN = NaN"

fun jexp :: "jsnum \<Rightarrow> jsnum" where
  "jexp (Fin a) = Fin (exp a)"
| "jexp PInf = PInf"
| "jexp NInf = Fin 0"
| "jexp NaN = NaN"

fun jlog :: "jsnum \<Rightarrow> jsnum" where
  "jlog (Fin a) = (if a < 0 then NaN else if a = 0 then NInf else Fin (ln a))"
| "jlog PInf = PInf"
| "jlog NInf = NaN"
| "jlog NaN = NaN"

fun jfloor :: "jsnum \<Rightarrow> jsnum" where
  "jfloor (Fin a) = Fin (of_int \<lfloor>a\<rfloor>)"
| "jfloor x = x"

fun jceil :: "jsnum \<Rightarrow> jsnum" where
  "jceil (Fin a) = Fin (of_int \<lceil>a\<rceil>)"
| "jceil x = x"

text \<open>\<^verbatim>\<open><\<close> on numbers: false as soon as one side is NaN.\<close>

fun jlt :: "jsnum \<Rightarrow> jsnum \<Rightarrow> bool" where
  "jlt (Fin a) (Fin b) = (a < b)"
| "jlt NaN _ = False"
| "jlt _ NaN = False"
| "jlt _ NInf = False"
| "jlt PInf _ = False"
| "jlt NInf _ = True"
| "jlt _ PInf = True"

definition jgt :: "jsnum \<Rightarrow> jsnum \<Rightarrow> bool" where
  "jgt a b = jlt b a"

fun jle :: "jsnum \<Rightarrow> jsnum \<Rightarrow> bool" where
  "jle (Fin a) (Fin b) = (a \<le> b)"
| "jle NaN _ = False"
| "jle _ NaN = False"
| "jle NInf _ = True"
| "jle _ PInf = True"
| "jle _ NInf = False"
| "jle PInf _ = False"

definition jge :: "jsnum \<Rightarrow> jsnum \<Rightarrow> bool" where
  "jge a b = jle b a"

text \<open>\<^verbatim>\<open>Math.max\<close> and \<^verbatim>\<open>Math.min\<close> of two numbers: NaN as soon as one argument is NaN.\<close>

fun jmax :: "jsnum \<Rightarrow> jsnum \<Rightarrow> jsnum" where
  "jmax (Fin a) (Fin b) = Fin (max a b)"
| "jmax NaN _ = NaN"
| "jmax _ NaN = NaN"
| "jmax PInf _ = PInf"
| "jmax _ PInf = PInf"
| "jmax NInf b = b"
| "jmax a NInf = a"

fun jmin :: "jsnum \<Rightarrow> jsnum \<Rightarrow> jsnum" where
  "jmin (Fin a) (Fin b) = Fin (min a b)"
| "jmin NaN _ = NaN"
| "jmin _ NaN = NaN"
| "jmin NInf _ = NInf"
| "jmin _ NInf = NInf"
| "jmin PInf b = b"
| "jmin a PInf = a"

text \<open>
The real value of a finite number (0 for the special values).
\<close>

fun fin :: "jsnum \<Rightarrow> real" where
  "fin (Fin r) = r"
| "fin _ = 0"

text \<open>
  \<^verbatim>\<open>Number.MAX_VALUE\<close>, the largest finite number.
\<close>

definition MAX_VALUE :: real where
  "MAX_VALUE = (2 - 1 / 2 ^ 52) * 2 ^ 1023"

text \<open>
  The range check of an arithmetic result: beyond \<^verbatim>\<open>Number.MAX_VALUE\<close> it is an infinity.
  (Rounding to nearest keeps a result finite up to half a unit in the last place above the
  maximum; the check here is the stricter one.)
\<close>

definition ovf :: "real \<Rightarrow> jsnum" where
  "ovf x = (if MAX_VALUE < x then PInf else if x < - MAX_VALUE then NInf else Fin x)"

fun rng :: "jsnum \<Rightarrow> jsnum" where
  "rng (Fin x) = ovf x"
| "rng v = v"

text \<open>
  Range-checked arithmetic: \<^verbatim>\<open>+\<close>, \<^verbatim>\<open>-\<close>, \<^verbatim>\<open>*\<close>, \<^verbatim>\<open>/\<close> and \<^verbatim>\<open>Math.exp\<close> whose finite result
  overflows to an infinity. The feature functions below, whose operands are not bounded by
  the code, are written with it.
\<close>

definition oadd :: "jsnum \<Rightarrow> jsnum \<Rightarrow> jsnum" where
  "oadd a b = rng (jadd a b)"

definition osub :: "jsnum \<Rightarrow> jsnum \<Rightarrow> jsnum" where
  "osub a b = rng (jsub a b)"

definition omul :: "jsnum \<Rightarrow> jsnum \<Rightarrow> jsnum" where
  "omul a b = rng (jmul a b)"

definition odiv :: "jsnum \<Rightarrow> jsnum \<Rightarrow> jsnum" where
  "odiv a b = rng (jdiv a b)"

definition oexp :: "jsnum \<Rightarrow> jsnum" where
  "oexp a = rng (jexp a)"

text \<open>
  The values a \<^verbatim>\<open>Float32Array\<close> can hold: 0, or a number whose absolute value lies between
  the smallest positive and the largest finite single-precision number. The windows and
  spectra of the engine are \<^verbatim>\<open>Float32Array\<close>s.
\<close>

definition F32_MIN :: real where
  "F32_MIN = 1 / 2 ^ 149"

definition F32_MAX :: real where
  "F32_MAX = (2 - 1 / 2 ^ 23) * 2 ^ 127"

definition float32 :: "real \<Rightarrow> bool" where
  "float32 x = (x = 0 \<or> (F32_MIN \<le> \<bar>x\<bar> \<and> \<bar>x\<bar> \<le> F32_MAX))"

text \<open>
\<^verbatim>\<open>Number.isFinite\<close>: neither NaN nor an infinity.
\<close>

fun isFinite :: "jsnum \<Rightarrow> bool" where
  "isFinite (Fin r) = True"
| "isFinite _ = False"

text \<open>
A call that returns (\<open>None\<close> stands for a loop that never ends) and returns a finite number.
\<close>

definition returnsFinite :: "jsnum option \<Rightarrow> bool" where
  "returnsFinite res = (case res of Some v \<Rightarrow> isFinite v | None \<Rightarrow> False)"

section \<open>Signal conditioner\<close>

text \<open>
  \<^verbatim>\<open>normalizeAudio\<close> and \<^verbatim>\<open>highPassFilter\<close> of \<^verbatim>\<open>src/backend/server.js\<close>. The filter
  coefficient is computed with divisions by the cut-off frequency and by the sample rate,
  so the filtered samples are computed numbers.
\<close>

text \<open>
The first loop of \<^verbatim>\<open>normalizeAudio\<close>: the largest absolute sample, starting from 0.
\<close>

definition maxAmplitudeOf :: "real list \<Rightarrow> real" where
  "maxAmplitudeOf samples = fold (\<lambda>x maxAmplitude. if \<bar>x\<bar> > maxAmplitude then \<bar>x\<bar> else maxAmplitude) samples 0"

text \<open>
  The division is guarded by the early return for \<open>maxAmplitude = 0\<close>, so the result is
  finite. Storing into the \<^verbatim>\<open>Float32Array\<close> rounds; the rounding is not modelled.
\<close>

definition normalizeAudio :: "real list \<Rightarrow> real list" where
  "normalizeAudio samples =
    (let maxAmplitude = maxAmplitudeOf samples
     in if maxAmplitude = 0 then samples
        else map (\<lambda>x. x / maxAmplitude) samples)"

text \<open>
The coefficient \<^verbatim>\<open>alpha = RC / (RC + dt)\<close> of \<^verbatim>\<open>highPassFilter\<close>.
\<close>

definition hpAlpha :: "real \<Rightarrow> real \<Rightarrow> jsnum" where
  "hpAlpha cutoffFreq sampleRate =
    (let RC = jdiv (Fin 1.0) (Fin (cutoffFreq * 2 * pi));
         dt = jdiv (Fin 1.0) (Fin sampleRate)
     in jdiv RC (jadd RC dt))"

text \<open>
  The loop of \<^verbatim>\<open>highPassFilter\<close> from index 1 on:
  \<^verbatim>\<open>filtered[i] = alpha * (filtered[i - 1] + samples[i] - samples[i - 1])\<close>.
\<close>

fun hpLoop :: "jsnum \<Rightarrow> jsnum \<Rightarrow> real \<Rightarrow> real list \<Rightarrow> jsnum list" where
  "hpLoop alpha prevFiltered prevSample [] = []"
| "hpLoop alpha prevFiltered prevSample (x # xs) =
    (let y = jmul alpha (jsub (jadd prevFiltered (Fin x)) (Fin prevSample))
     in y # hpLoop alpha y x xs)"

text \<open>
  \<^verbatim>\<open>filtered[0] = samples[0]\<close>; on an empty buffer the store to index 0 of the empty typed
  array has no effect and the result is empty.
\<close>

definition highPassFilter :: "real list \<Rightarrow> real \<Rightarrow> real \<Rightarrow> jsnum list" where
  "highPassFilter samples cutoffFreq sampleRate =
    (case samples of
       [] \<Rightarrow> []
     | x0 # rest \<Rightarrow> Fin x0 # hpLoop (hpAlpha cutoffFreq sampleRate) (Fin x0) x0 rest)"

text \<open>
  The conditioning that opens \<^verbatim>\<open>extractFeatures\<close>: \<^verbatim>\<open>normalizeAudio\<close>, then
  \<^verbatim>\<open>highPassFilter(samples, 80, sampleRate)\<close>.
\<close>

definition conditionSamples :: "real list \<Rightarrow> real \<Rightarrow> jsnum list" where
  "conditionSamples samples sampleRate = highPassFilter (normalizeAudio samples) 80 sampleRate"

section \<open>Feature extractor\<close>

text \<open>
  The per-window feature functions of the class \<^verbatim>\<open>AudioFingerprint\<close>. Every \<^verbatim>\<open>+\<close>,
  \<^verbatim>\<open>-\<close>, \<^verbatim>\<open>*\<close>, \<^verbatim>\<open>/\<close> and \<^verbatim>\<open>Math.exp\<close> of \<^verbatim>\<open>calculateEnergy\<close>,
  \<^verbatim>\<open>calculateZeroCrossingRate\<close>, \<^verbatim>\<open>calculateSpectralCentroid\<close>,
  \<^verbatim>\<open>calculateSpectralFluxBetween\<close>, \<^verbatim>\<open>calculateSpectralRolloff\<close>,
  \<^verbatim>\<open>calculateSpectralFlatness\<close>, \<^verbatim>\<open>findPeakFrequency\<close> and
  \<^verbatim>\<open>calculateSpectralContrast\<close> is the range-checked operation, so that a sum, a product or
  a quotient of finite numbers that exceeds \<^verbatim>\<open>Number.MAX_VALUE\<close> is an infinity, as in the
  code. \<^verbatim>\<open>getBandEnergy\<close> is written with the plain operations; its result is bounded
  explicitly where its finiteness is claimed.
\<close>

text \<open>
  \<^verbatim>\<open>xs[i]\<close> for an integer index: the element, or \<^verbatim>\<open>undefined\<close> out of range, which
  behaves as NaN in arithmetic and in comparisons.
\<close>

definition arr :: "real list \<Rightarrow> int \<Rightarrow> jsnum" where
  "arr xs i = (if 0 \<le> i \<and> i < int (length xs) then Fin (xs ! nat i) else NaN)"

text \<open>
  The values of \<open>i\<close> visited by \<^verbatim>\<open>for (let i = start; i < end; i++)\<close> when \<open>start\<close> is
  integral (here always a result of \<^verbatim>\<open>Math.floor\<close>). The loop never ends, \<open>None\<close>, when it
  is entered with \<open>start = -Infinity\<close> or with \<open>end = Infinity\<close>.
\<close>

definition loopIndices :: "jsnum \<Rightarrow> jsnum \<Rightarrow> int list option" where
  "loopIndices start end' =
    (if \<not> jlt start end' then Some []
     else (case (start, end') of
             (Fin s, Fin e) \<Rightarrow> Some [\<lfloor>s\<rfloor> .. \<lceil>e\<rceil> - 1]
           | _ \<Rightarrow> None))"

text \<open>
\<^verbatim>\<open>(freq / nyquist) * spectrum.length\<close> of \<^verbatim>\<open>getBandEnergy\<close>.
\<close>

definition freqToBin :: "real \<Rightarrow> real \<Rightarrow> nat \<Rightarrow> jsnum" where
  "freqToBin freq nyquist len = jmul (jdiv (Fin freq) (Fin nyquist)) (Fin (real len))"

text \<open>
  \<^verbatim>\<open>getBandEnergy\<close>. The loop adds \<^verbatim>\<open>spectrum[i] * spectrum[i]\<close> for
  \<open>startBin \<le> i < endBin\<close>; the result divides by \<^verbatim>\<open>endBin - startBin + 1\<close>.
\<close>

definition getBandEnergy :: "real list \<Rightarrow> real \<Rightarrow> real \<Rightarrow> real \<Rightarrow> jsnum option" where
  "getBandEnergy spectrum lowFreq highFreq sampleRate =
    (let nyquist = sampleRate / 2;
         lowBin = jfloor (freqToBin lowFreq nyquist (length spectrum));
         highBin = jceil (freqToBin highFreq nyquist (length spectrum));
         startBin = jmax (Fin 0) lowBin;
         endBin = jmin highBin (Fin (real (length spectrum)))
     in if jge startBin endBin then Some (Fin 0)
        else (case loopIndices startBin endBin of
                None \<Rightarrow> None
              | Some idx \<Rightarrow>
                  (let energy = fold (\<lambda>i energy. jadd energy (jmul (arr spectrum i) (arr spectrum i)))
                                  idx (Fin 0)
                   in Some (jsqrt (jdiv energy (jadd (jsub endBin startBin) (Fin 1)))))))"

definition calculateEnergy :: "real list \<Rightarrow> jsnum" where
  "calculateEnergy samples =
    (let sum = fold (\<lambda>x sum. oadd sum (omul (Fin x) (Fin x))) samples (Fin 0)
     in jsqrt (odiv sum (Fin (real (length samples)))))"

text \<open>
The loop of \<^verbatim>\<open>calculateZeroCrossingRate\<close> from index 1 on, with the previous sample.
\<close>

fun crossingsFrom :: "real \<Rightarrow> real list \<Rightarrow> nat" where
  "crossingsFrom prev [] = 0"
| "crossingsFrom prev (x # xs) =
     (if (x \<ge> 0 \<and> prev < 0) \<or> (x < 0 \<and> prev \<ge> 0) then 1 else 0) + crossingsFrom x xs"

definition calculateZeroCrossingRate :: "real list \<Rightarrow> jsnum" where
  "calculateZeroCrossingRate samples =
    (let crossings = (case samples of [] \<Rightarrow> 0 | x0 # rest \<Rightarrow> crossingsFrom x0 rest)
     in odiv (Fin (real crossings)) (Fin (real (length samples))))"

definition calculateSpectralCentroid :: "real list \<Rightarrow> real \<Rightarrow> jsnum" where
  "calculateSpectralCentroid spectrum sampleRate =
    (let nyquist = odiv (Fin sampleRate) (Fin 2);
         weightedSum = fold (\<lambda>i weightedSum.
             (let frequency = omul (odiv (Fin (real i)) (Fin (real (length spectrum)))) nyquist
              in oadd weightedSum (omul frequency (Fin (spectrum ! i)))))
           [0 ..< length spectrum] (Fin 0);
         sum = fold (\<lambda>x sum. oadd sum (Fin x)) spectrum (Fin 0)
     in if jgt sum (Fin 0) then odiv weightedSum sum else Fin 0)"

definition calculateSpectralFluxBetween :: "real list \<Rightarrow> real list \<Rightarrow> jsnum" where
  "calculateSpectralFluxBetween spectrum1 spectrum2 =
    (let len = min (length spectrum1) (length spectrum2);
         flux = fold (\<lambda>i flux.
                  (let diff = osub (Fin (spectrum1 ! i)) (Fin (spectrum2 ! i))
                   in oadd flux (omul diff diff)))
                  [0 ..< len] (Fin 0)
     in jsqrt (odiv flux (Fin (real len))))"

text \<open>
The loop of \<^verbatim>\<open>calculateSpectralRolloff\<close>, returning from inside at the first bin that reaches the threshold.
\<close>

fun rolloffLoop :: "jsnum \<Rightarrow> jsnum \<Rightarrow> nat \<Rightarrow> nat \<Rightarrow> jsnum \<Rightarrow> real list \<Rightarrow> jsnum" where
  "rolloffLoop threshold nyquist len i cumulativeEnergy [] = nyquist"
| "rolloffLoop threshold nyquist len i cumulativeEnergy (x # xs) =
     (let cumulativeEnergy' = oadd cumulativeEnergy (Fin x)
      in if jge cumulativeEnergy' threshold
         then omul (odiv (Fin (real i)) (Fin (real len))) nyquist
         else rolloffLoop threshold nyquist len (Suc i) cumulativeEnergy' xs)"

definition calculateSpectralRolloff :: "real list \<Rightarrow> real \<Rightarrow> jsnum" where
  "calculateSpectralRolloff spectrum sampleRate =
    (let totalEnergy = fold (\<lambda>val sum. oadd sum (Fin val)) spectrum (Fin 0);
         threshold = omul (Fin 0.85) totalEnergy;
         nyquist = odiv (Fin sampleRate) (Fin 2)
     in rolloffLoop threshold nyquist (length spectrum) 0 (Fin 0) spectrum)"

text \<open>
One iteration of the loop of \<^verbatim>\<open>calculateSpectralFlatness\<close> on the state \<open>(geometricMean, arithmeticMean, count)\<close>.
\<close>

definition flatnessStep :: "real \<Rightarrow> jsnum \<times> jsnum \<times> nat \<Rightarrow> jsnum \<times> jsnum \<times> nat" where
  "flatnessStep x st =
    (case st of (geometricMean, arithmeticMean, cnt) \<Rightarrow>
       if x > 0 then (oadd geometricMean (jlog (Fin x)), oadd arithmeticMean (Fin x), Suc cnt)
       else st)"

definition calculateSpectralFlatness :: "real list \<Rightarrow> jsnum" where
  "calculateSpectralFlatness spectrum =
    (case fold flatnessStep spectrum (Fin 0, Fin 0, 0) of
       (geometricMean, arithmeticMean, cnt) \<Rightarrow>
         if cnt = 0 then Fin 0
         else (let geometricMean' = oexp (odiv geometricMean (Fin (real cnt)));
                   arithmeticMean' = odiv arithmeticMean (Fin (real cnt))
               in if jgt arithmeticMean' (Fin 0) then odiv geometricMean' arithmeticMean'
                  else Fin 0))"

text \<open>
One iteration of the loop of \<^verbatim>\<open>findPeakFrequency\<close> on the state \<open>(maxMag, peakBin)\<close>.
\<close>

definition peakStep :: "real list \<Rightarrow> int \<Rightarrow> real \<times> jsnum \<Rightarrow> real \<times> jsnum" where
  "peakStep spectrum i st =
    (case st of (maxMag, peakBin) \<Rightarrow>
       if jgt (arr spectrum i) (Fin maxMag) then (spectrum ! nat i, Fin (of_int i)) else st)"

text \<open>\<^verbatim>\<open>(freq / nyquist) * spectrum.length\<close> of \<^verbatim>\<open>findPeakFrequency\<close>, range-checked.\<close>

definition peakBinOf :: "real \<Rightarrow> jsnum \<Rightarrow> nat \<Rightarrow> jsnum" where
  "peakBinOf freq nyquist len = omul (odiv (Fin freq) nyquist) (Fin (real len))"

definition findPeakFrequency :: "real list \<Rightarrow> real \<Rightarrow> real \<Rightarrow> real \<Rightarrow> jsnum option" where
  "findPeakFrequency spectrum sampleRate lowFreq highFreq =
    (let nyquist = odiv (Fin sampleRate) (Fin 2);
         lowBin = jfloor (peakBinOf lowFreq nyquist (length spectrum));
         highBin = jceil (peakBinOf highFreq nyquist (length spectrum))
     in (case loopIndices lowBin (jmin highBin (Fin (real (length spectrum)))) of
           None \<Rightarrow> None
         | Some idx \<Rightarrow>
             (case fold (peakStep spectrum) idx (0, lowBin) of
                (maxMag, peakBin) \<Rightarrow>
                  Some (omul (odiv peakBin (Fin (real (length spectrum)))) nyquist))))"

text \<open>
\<^verbatim>\<open>xs.slice(-n)\<close>: the last \<open>n\<close> elements; \<^verbatim>\<open>slice(-0)\<close> is \<^verbatim>\<open>slice(0)\<close>, the whole array.
\<close>

definition sliceLast :: "nat \<Rightarrow> 'a list \<Rightarrow> 'a list" where
  "sliceLast n xs = (if n = 0 then xs else drop (length xs - n) xs)"

text \<open>
  \<^verbatim>\<open>calculateSpectralContrast\<close>. The copy is sorted in descending order; \<open>topN\<close> and
  \<open>bottomN\<close> are \<^verbatim>\<open>Math.floor(spectrum.length * 0.1)\<close>.
\<close>

definition calculateSpectralContrast :: "real list \<Rightarrow> jsnum" where
  "calculateSpectralContrast spectrum =
    (let sorted = rev (sort spectrum);
         topN = nat \<lfloor>real (length spectrum) * 0.1\<rfloor>;
         bottomN = nat \<lfloor>real (length spectrum) * 0.1\<rfloor>;
         peakMean = odiv (fold (\<lambda>b a. oadd a (Fin b)) (take topN sorted) (Fin 0)) (Fin (real topN));
         valleyMean = odiv (fold (\<lambda>b a. oadd a (Fin b)) (sliceLast bottomN sorted) (Fin 0))
                        (Fin (real bottomN))
     in if jgt valleyMean (Fin 0) then odiv peakMean valleyMean else Fin 0)"

section \<open>Matcher\<close>

definition DEFAULT_THRESHOLD :: real where
  "DEFAULT_THRESHOLD = 0.85"

definition REQUIRE_TEMPORAL_CONSISTENCY :: bool where
  "REQUIRE_TEMPORAL_CONSISTENCY = True"

definition MIN_CONSISTENT_FRAMES :: real where
  "MIN_CONSISTENT_FRAMES = 0.6"

text \<open>
  A frame is the object built by \<^verbatim>\<open>extractFeatures\<close> (or read back from the JSON
  database): a finite map from feature names to numbers. A missing field, \<^verbatim>\<open>null\<close> and
  NaN are all \<open>None\<close>: the comparison reads every field as \<^verbatim>\<open>f[feature] || 0\<close>, which
  replaces each of them, and the number 0, by 0.
\<close>

type_synonym frame = "string \<Rightarrow> real option"

type_synonym fingerprint = "frame list"

definition orZero :: "real option \<Rightarrow> real" where
  "orZero v = (case v of None \<Rightarrow> 0 | Some x \<Rightarrow> (if x = 0 then 0 else x))"

text \<open>The table \<^verbatim>\<open>weights\<close> of \<^verbatim>\<open>compareFingerprintsAligned\<close>, in the order of its entries.\<close>

definition weights :: "(string \<times> real) list" where
  "weights =
    [(''energy'', 0.01), (''zcr'', 0.03),
     (''spectralCentroid'', 0.12), (''spectralFlux'', 0.10), (''spectralRolloff'', 0.10),
     (''spectralFlatness'', 0.08), (''spectralContrast'', 0.08),
     (''subBass'', 0.06), (''bass'', 0.08), (''lowMid'', 0.07), (''mid'', 0.08),
     (''highMid'', 0.06), (''upperMid'', 0.05), (''presence'', 0.04), (''brilliance'', 0.02),
     (''peakFreq1'', 0.01), (''peakFreq2'', 0.01)]"

text \<open>The body of the inner loop: the similarity of one feature of two frames.\<close>

definition featureSimilarity :: "string \<Rightarrow> real \<Rightarrow> real \<Rightarrow> jsnum" where
  "featureSimilarity feature v1 v2 =
    (if prefix ''peakFreq'' feature then
       (let maxFreq = max (max v1 v2) 1;
            freqDiff = \<bar>v1 - v2\<bar>
        in jexp (jdiv (Fin (- freqDiff)) (Fin (maxFreq * 0.1))))
     else
       (let maxVal = max (max \<bar>v1\<bar> \<bar>v2\<bar>) 0.001;
            normalizedDiff = jdiv (Fin \<bar>v1 - v2\<bar>) (Fin maxVal)
        in jexp (jmul (jneg normalizedDiff) (Fin 2.0))))"

definition frameStep :: "frame \<Rightarrow> frame \<Rightarrow> string \<times> real \<Rightarrow> jsnum \<Rightarrow> jsnum" where
  "frameStep f1 f2 entry frameSimilarity =
    (case entry of (feature, weight) \<Rightarrow>
      (let v1 = orZero (f1 feature);
           v2 = orZero (f2 feature);
           similarity = featureSimilarity feature v1 v2
       in jadd frameSimilarity (jmul similarity (Fin weight))))"

definition frameSimilarity :: "frame \<Rightarrow> frame \<Rightarrow> jsnum" where
  "frameSimilarity f1 f2 = fold (frameStep f1 f2) weights (Fin 0)"

text \<open>
  The outer loop runs over \<open>i < len\<close> with \<open>len\<close> the smaller of the two lengths, so both
  reads are in range.
\<close>

definition frameSimilarities :: "fingerprint \<Rightarrow> fingerprint \<Rightarrow> jsnum list" where
  "frameSimilarities fp1 fp2 =
    map (\<lambda>i. frameSimilarity (fp1 ! i) (fp2 ! i)) [0 ..< min (length fp1) (length fp2)]"

text \<open>\<^verbatim>\<open>xs.reduce((a, b) => a + b, 0)\<close>\<close>

definition reduceAdd :: "jsnum list \<Rightarrow> jsnum" where
  "reduceAdd xs = foldl jadd (Fin 0) xs"

definition compareFingerprintsAligned :: "fingerprint \<Rightarrow> fingerprint \<Rightarrow> jsnum" where
  "compareFingerprintsAligned fp1 fp2 =
    (let len = min (length fp1) (length fp2);
         sims = frameSimilarities fp1 fp2;
         goodFrames = length (filter (\<lambda>s. jgt s (Fin 0.7)) sims);
         consistencyRatio = jdiv (Fin (real goodFrames)) (Fin (real (length sims)))
     in if REQUIRE_TEMPORAL_CONSISTENCY \<and> jlt consistencyRatio (Fin MIN_CONSISTENT_FRAMES)
        then (let avgSimilarity = jdiv (reduceAdd sims) (Fin (real len))
              in jmul avgSimilarity (Fin 0.5))
        else jdiv (reduceAdd sims) (Fin (real len)))"

definition compareFingerprints :: "fingerprint \<Rightarrow> fingerprint \<Rightarrow> jsnum" where
  "compareFingerprints fp1 fp2 =
    (let minLen = min (length fp1) (length fp2)
     in if minLen < 10 then Fin 0
        else (let score = compareFingerprintsAligned fp1 fp2;
                  lengthRatio = jdiv (Fin (real minLen)) (Fin (real (max (length fp1) (length fp2))));
                  lengthPenalty = (if jlt lengthRatio (Fin 0.7) then 0.85 else 1.0)
              in jmul score (Fin lengthPenalty)))"

section \<open>Store and matching\<close>

text \<open>
  The database is the JavaScript \<^verbatim>\<open>Map\<close> of the class, as the list of its entries in
  insertion order. \<^verbatim>\<open>matchAudio\<close> is modelled from the point where the fingerprint of the
  unknown clip has been generated (decoding the file is input/output).
\<close>

text \<open>
  A stored value is the object \<^verbatim>\<open>{fingerprint, userId, timestamp}\<close> written by
  \<^verbatim>\<open>storeAudio\<close>, or a bare fingerprint array, which \<^verbatim>\<open>matchAudio\<close> accepts through
  \<^verbatim>\<open>storedData.fingerprint || storedData\<close> and whose \<^verbatim>\<open>userId\<close> is undefined.
\<close>

datatype storedData = Stored fingerprint "string option" string | Legacy fingerprint

fun fingerprintOf :: "storedData \<Rightarrow> fingerprint" where
  "fingerprintOf (Stored fp u t) = fp"
| "fingerprintOf (Legacy fp) = fp"

fun userIdOf :: "storedData \<Rightarrow> string option" where
  "userIdOf (Stored fp u t) = u"
| "userIdOf (Legacy fp) = None"

text \<open>
\<^verbatim>\<open>Map.prototype.set\<close>: an existing key keeps its position, a new key goes last.
\<close>

fun mapSet :: "('k \<times> 'v) list \<Rightarrow> 'k \<Rightarrow> 'v \<Rightarrow> ('k \<times> 'v) list" where
  "mapSet [] k v = [(k, v)]"
| "mapSet ((k', v') # rest) k v = (if k' = k then (k, v) # rest else (k', v') # mapSet rest k v)"

text \<open>
\<^verbatim>\<open>storeAudio\<close>, from the generated fingerprint on; the timestamp is a parameter.
\<close>

definition storeAudio ::
  "(string \<times> storedData) list \<Rightarrow> fingerprint \<Rightarrow> string \<Rightarrow> string option \<Rightarrow> string
     \<Rightarrow> (string \<times> storedData) list" where
  "storeAudio database fp aid uid timestamp = mapSet database aid (Stored fp uid timestamp)"

record scoreEntry =
  audioId :: string
  score :: jsnum
  userId :: string

record matchResult =
  match :: "string option"
  confidence :: jsnum
  allScores :: "scoreEntry list"

text \<open>
Truthiness of an optional string: \<^verbatim>\<open>null\<close>, \<^verbatim>\<open>undefined\<close> and the empty string are falsy.
\<close>

definition truthy :: "string option \<Rightarrow> bool" where
  "truthy u = (case u of None \<Rightarrow> False | Some s \<Rightarrow> s \<noteq> [])"

text \<open>
The guard \<^verbatim>\<open>userId && storedData.userId !== userId\<close> of the matching loop.
\<close>

definition skipped :: "string option \<Rightarrow> storedData \<Rightarrow> bool" where
  "skipped uid storedData = (truthy uid \<and> userIdOf storedData \<noteq> uid)"

text \<open>
\<^verbatim>\<open>storedData.userId || 'unknown'\<close>
\<close>

definition orUnknown :: "string option \<Rightarrow> string" where
  "orUnknown u = (case u of None \<Rightarrow> ''unknown'' | Some s \<Rightarrow> (if s = [] then ''unknown'' else s))"

text \<open>
The entry pushed to \<^verbatim>\<open>allScores\<close> for one candidate.
\<close>

definition scoreOf :: "fingerprint \<Rightarrow> string \<times> storedData \<Rightarrow> scoreEntry" where
  "scoreOf unknownFingerprint entry =
    (case entry of (aid, storedData) \<Rightarrow>
       \<lparr>audioId = aid,
        score = compareFingerprints unknownFingerprint (fingerprintOf storedData),
        userId = orUnknown (userIdOf storedData)\<rparr>)"

text \<open>
One iteration of the loop of \<^verbatim>\<open>matchAudio\<close> on the state \<open>(bestMatch, bestScore, allScores)\<close>.
\<close>

definition matchStep ::
  "string option \<Rightarrow> fingerprint \<Rightarrow> string \<times> storedData
     \<Rightarrow> string option \<times> jsnum \<times> scoreEntry list \<Rightarrow> string option \<times> jsnum \<times> scoreEntry list" where
  "matchStep uid unknownFingerprint entry st =
    (case st of (bestMatch, bestScore, scores) \<Rightarrow>
      if skipped uid (snd entry) then st
      else (let e = scoreOf unknownFingerprint entry;
                scores' = scores @ [e]
            in if jgt (score e) bestScore then (Some (audioId e), score e, scores')
               else (bestMatch, bestScore, scores')))"

text \<open>
The comparator \<^verbatim>\<open>(a, b) => b.score - a.score\<close>.
\<close>

definition cmpScore :: "scoreEntry \<Rightarrow> scoreEntry \<Rightarrow> jsnum" where
  "cmpScore a b = jsub (score b) (score a)"

text \<open>
  \<^verbatim>\<open>allScores.sort(...)\<close>. \<^verbatim>\<open>Array.prototype.sort\<close> is stable, so on a consistent
  comparator its result is that of the stable insertion sort: an entry goes behind the
  entries for which the comparator is positive (those with a strictly higher score) and
  stays in front of the later entries with an equal score.
\<close>

fun insertScore :: "scoreEntry \<Rightarrow> scoreEntry list \<Rightarrow> scoreEntry list" where
  "insertScore x [] = [x]"
| "insertScore x (y # ys) =
     (if jgt (cmpScore x y) (Fin 0) then y # insertScore x ys else x # y # ys)"

definition sortScores :: "scoreEntry list \<Rightarrow> scoreEntry list" where
  "sortScores xs = foldr insertScore xs []"

text \<open>
\<^verbatim>\<open>matchAudio\<close>, without the logging.
\<close>

definition matchAudio ::
  "(string \<times> storedData) list \<Rightarrow> fingerprint \<Rightarrow> real \<Rightarrow> string option \<Rightarrow> matchResult" where
  "matchAudio database unknownFingerprint threshold uid =
    (case fold (matchStep uid unknownFingerprint) database (None, Fin 0, []) of
      (bestMatch, bestScore, scores) \<Rightarrow>
        (let ranked = sortScores scores
         in if jge bestScore (Fin threshold)
            then \<lparr>match = bestMatch, confidence = bestScore, allScores = ranked\<rparr>
            else \<lparr>match = None, confidence = bestScore, allScores = ranked\<rparr>))"

section \<open>Readings of the specification\<close>

text \<open>
  The quantities the specification names for the temporal consistency gate, written over
  the aligned pairs of frames, and the root of the mean of the squares of a list.
\<close>

text \<open>
The similarity of each aligned pair of frames.
\<close>

definition frameScores :: "fingerprint \<Rightarrow> fingerprint \<Rightarrow> real list" where
  "frameScores fp1 fp2 = map (\<lambda>(f1, f2). fin (frameSimilarity f1 f2)) (zip fp1 fp2)"

definition meanFrameSimilarity :: "fingerprint \<Rightarrow> fingerprint \<Rightarrow> real" where
  "meanFrameSimilarity fp1 fp2 =
     sum_list (frameScores fp1 fp2) / real (length (frameScores fp1 fp2))"

definition goodFrameFraction :: "fingerprint \<Rightarrow> fingerprint \<Rightarrow> real" where
  "goodFrameFraction fp1 fp2 =
     real (length (filter (\<lambda>s. 0.7 < s) (frameScores fp1 fp2)))
       / real (length (frameScores fp1 fp2))"

text \<open>The magnitudes of the bins \<open>s \<le> i < e\<close> of a spectrum.\<close>

definition bandSlice :: "real list \<Rightarrow> int \<Rightarrow> int \<Rightarrow> real list" where
  "bandSlice spectrum s e = map (\<lambda>i. spectrum ! nat i) [s .. e - 1]"

text \<open>
Root of the mean of the squares.
\<close>

definition rms :: "real list \<Rightarrow> real" where
  "rms xs = sqrt (sum_list (map (\<lambda>x. x * x) xs) / real (length xs))"

text \<open>
The stored entries that pass the owner filter.
\<close>

definition candidates :: "string option \<Rightarrow> (string \<times> storedData) list \<Rightarrow> (string \<times> storedData) list" where
  "candidates uid database = filter (\<lambda>entry. \<not> skipped uid (snd entry)) database"

definition scoreValue :: "scoreEntry \<Rightarrow> real" where
  "scoreValue e = fin (score e)"

definition finiteScores :: "scoreEntry list \<Rightarrow> bool" where
  "finiteScores xs = (\<forall>e \<in> set xs. score e = Fin (scoreValue e))"

section \<open>Example data\<close>

text \<open>
The frame of an all-zero window at 44100 Hz, and a frame that differs from it in every feature.
\<close>

definition silentFrame :: frame where
  "silentFrame = map_of
    [(''energy'', 0), (''zcr'', 0), (''spectralCentroid'', 0), (''spectralFlux'', 0),
     (''spectralRolloff'', 0), (''spectralFlatness'', 0),
     (''subBass'', 0), (''bass'', 0), (''lowMid'', 0), (''mid'', 0), (''highMid'', 0),
     (''upperMid'', 0), (''presence'', 0), (''brilliance'', 0),
     (''peakFreq1'', 0), (''peakFreq2'', 11025), (''spectralContrast'', 0)]"

definition wildFrame :: frame where
  "wildFrame = map_of
    [(''energy'', 1), (''zcr'', 1), (''spectralCentroid'', 1), (''spectralFlux'', 1),
     (''spectralRolloff'', 1), (''spectralFlatness'', 1),
     (''subBass'', 1), (''bass'', 1), (''lowMid'', 1), (''mid'', 1), (''highMid'', 1),
     (''upperMid'', 1), (''presence'', 1), (''brilliance'', 1),
     (''peakFreq1'', 1), (''peakFreq2'', 1), (''spectralContrast'', 1)]"

text \<open>
Ten silent frames, and a clip of ten frames whose last five are wild.
\<close>

definition silentClip :: fingerprint where
  "silentClip = replicate 10 silentFrame"

definition halfWildClip :: fingerprint where
  "halfWildClip = replicate 5 silentFrame @ replicate 5 wildFrame"

section \<open>Similarity of features and frames\<close>

lemma maxFreq_pos: "0 < max (max v1 v2) (1::real)"
  by (simp add: less_max_iff_disj)

lemma maxVal_pos: "0 < max (max \<bar>v1\<bar> \<bar>v2\<bar>) (0.001::real)"
  by (simp add: less_max_iff_disj)

lemma featureSimilarity_range:
  "\<exists>r. featureSimilarity feature v1 v2 = Fin r \<and> 0 < r \<and> r \<le> 1"
proof (cases "prefix ''peakFreq'' feature")
  case True
  have ne: "max (max v1 v2) 1 \<noteq> 0" using maxFreq_pos[of v1 v2] by linarith
  have "- \<bar>v1 - v2\<bar> / (max (max v1 v2) 1 * 0.1) \<le> 0"
    using maxFreq_pos[of v1 v2] by (simp add: divide_le_0_iff)
  hence "exp (- \<bar>v1 - v2\<bar> / (max (max v1 v2) 1 * 0.1)) \<le> 1" by simp
  thus ?thesis using True ne by (simp add: featureSimilarity_def Let_def)
next
  case False
  have ne: "max (max \<bar>v1\<bar> \<bar>v2\<bar>) 0.001 \<noteq> 0" using maxVal_pos[of v1 v2] by linarith
  have "0 \<le> \<bar>v1 - v2\<bar> / max (max \<bar>v1\<bar> \<bar>v2\<bar>) 0.001"
    using maxVal_pos[of v1 v2] by simp
  hence "exp (- (\<bar>v1 - v2\<bar> / max (max \<bar>v1\<bar> \<bar>v2\<bar>) 0.001) * 2) \<le> 1" by simp
  thus ?thesis using False ne by (simp add: featureSimilarity_def Let_def)
qed

lemma featureSimilarity_self: "featureSimilarity feature v v = Fin 1"
proof -
  have ne1: "max (max v v) 1 \<noteq> 0" using maxFreq_pos[of v v] by linarith
  have ne2: "max (max \<bar>v\<bar> \<bar>v\<bar>) 0.001 \<noteq> 0" using maxVal_pos[of v v] by linarith
  show ?thesis using ne1 ne2 by (simp add: featureSimilarity_def Let_def)
qed

lemma featureSimilarity_sym: "featureSimilarity feature v1 v2 = featureSimilarity feature v2 v1"
  by (simp add: featureSimilarity_def Let_def abs_minus_commute max.commute)

lemma fold_frameStep_range:
  "\<forall>e \<in> set ws. 0 \<le> snd e \<Longrightarrow>
   \<exists>r. fold (frameStep f1 f2) ws (Fin a) = Fin r \<and> a \<le> r \<and> r \<le> a + sum_list (map snd ws)"
proof (induction ws arbitrary: a)
  case Nil
  show ?case by simp
next
  case (Cons e ws)
  obtain feature weight where e: "e = (feature, weight)" by (cases e)
  obtain s where s: "featureSimilarity feature (orZero (f1 feature)) (orZero (f2 feature)) = Fin s"
    "0 < s" "s \<le> 1" using featureSimilarity_range by blast
  have w: "0 \<le> weight" using Cons.prems e by simp
  have step: "frameStep f1 f2 e (Fin a) = Fin (a + s * weight)"
    by (simp add: frameStep_def e s Let_def)
  from Cons.prems have "\<forall>e \<in> set ws. 0 \<le> snd e" by simp
  from Cons.IH[OF this, of "a + s * weight"] obtain r where
    r: "fold (frameStep f1 f2) ws (Fin (a + s * weight)) = Fin r"
       "a + s * weight \<le> r" "r \<le> a + s * weight + sum_list (map snd ws)" by blast
  have "0 \<le> s * weight" using s w by simp
  moreover have "s * weight \<le> weight" using s w by (simp add: mult_left_le_one_le)
  ultimately show ?case using r step e by auto
qed

lemma fold_frameStep_self:
  "fold (frameStep f f) ws (Fin a) = Fin (a + sum_list (map snd ws))"
  by (induction ws arbitrary: a)
     (auto simp: frameStep_def featureSimilarity_self Let_def algebra_simps)

lemma fold_frameStep_sym:
  "fold (frameStep f1 f2) ws acc = fold (frameStep f2 f1) ws acc"
proof -
  have "frameStep f1 f2 = frameStep f2 f1"
    by (intro ext) (simp add: frameStep_def Let_def featureSimilarity_sym split: prod.splits)
  thus ?thesis by simp
qed

lemma weights_sum: "sum_list (map snd weights) = 1"
  by (simp add: weights_def)

lemma weights_nonneg: "\<forall>e \<in> set weights. 0 \<le> snd e"
  by (simp add: weights_def)

lemma frameSimilarity_range:
  "\<exists>r. frameSimilarity f1 f2 = Fin r \<and> 0 \<le> r \<and> r \<le> 1"
  using fold_frameStep_range[OF weights_nonneg, of f1 f2 0]
  by (simp add: frameSimilarity_def weights_sum)

lemma frameSimilarity_self: "frameSimilarity f f = Fin 1"
  by (simp add: frameSimilarity_def fold_frameStep_self weights_sum)

lemma frameSimilarity_sym: "frameSimilarity f1 f2 = frameSimilarity f2 f1"
  by (simp add: frameSimilarity_def fold_frameStep_sym)

lemma frameSimilarity_Fin: "frameSimilarity f1 f2 = Fin (fin (frameSimilarity f1 f2))"
  using frameSimilarity_range[of f1 f2] by auto

lemma fin_frameSimilarity_range:
  "0 \<le> fin (frameSimilarity f1 f2) \<and> fin (frameSimilarity f1 f2) \<le> 1"
  using frameSimilarity_range[of f1 f2] by auto

lemma frameSimilarities_scores:
  "frameSimilarities fp1 fp2 = map Fin (frameScores fp1 fp2)"
  by (rule nth_equalityI)
     (simp_all add: frameSimilarities_def frameScores_def frameSimilarity_Fin[symmetric])

lemma length_frameScores [simp]: "length (frameScores fp1 fp2) = min (length fp1) (length fp2)"
  by (simp add: frameScores_def)

lemma frameScores_range: "s \<in> set (frameScores fp1 fp2) \<Longrightarrow> 0 \<le> s \<and> s \<le> 1"
  using fin_frameSimilarity_range by (auto simp: frameScores_def)

lemma frameScores_sym: "frameScores fp1 fp2 = frameScores fp2 fp1"
  by (rule nth_equalityI) (simp_all add: frameScores_def frameSimilarity_sym)

lemma frameScores_self: "frameScores fp fp = replicate (length fp) 1"
  by (rule nth_equalityI) (simp_all add: frameScores_def frameSimilarity_self)

section \<open>Aligned comparison\<close>

lemma foldl_jadd_Fin: "foldl jadd (Fin a) (map Fin rs) = Fin (a + sum_list rs)"
  by (induction rs arbitrary: a) (simp_all add: algebra_simps)

lemma reduceAdd_Fin: "reduceAdd (map Fin rs) = Fin (sum_list rs)"
  by (simp add: reduceAdd_def foldl_jadd_Fin)

lemma filter_jgt_Fin: "length (filter (\<lambda>s. jgt s (Fin c)) (map Fin rs)) = length (filter (\<lambda>s. c < s) rs)"
  by (induction rs) (simp_all add: jgt_def)

lemma jdiv_Fin: "b \<noteq> 0 \<Longrightarrow> jdiv (Fin a) (Fin b) = Fin (a / b)"
  by simp

lemma aligned_value:
  assumes "0 < min (length fp1) (length fp2)"
  shows "compareFingerprintsAligned fp1 fp2 =
     Fin (if goodFrameFraction fp1 fp2 < 0.6 then meanFrameSimilarity fp1 fp2 / 2
          else meanFrameSimilarity fp1 fp2)"
proof -
  let ?rs = "frameScores fp1 fp2"
  let ?n = "min (length fp1) (length fp2)"
  have l: "length ?rs = ?n" by (rule length_frameScores)
  from assms have "0 < real ?n" by (simp only: of_nat_0_less_iff)
  hence n: "real ?n \<noteq> 0" by linarith
  have sims: "frameSimilarities fp1 fp2 = map Fin ?rs"
    by (rule frameSimilarities_scores)
  have good: "length (filter (\<lambda>s. jgt s (Fin 0.7)) (map Fin ?rs))
      = length (filter (\<lambda>s. 0.7 < s) ?rs)"
    by (rule filter_jgt_Fin)
  have ratio: "jdiv (Fin (real (length (filter (\<lambda>s. 0.7 < s) ?rs))))
        (Fin (real (length (map Fin ?rs)))) = Fin (goodFrameFraction fp1 fp2)"
    unfolding goodFrameFraction_def length_map l by (rule jdiv_Fin[OF n])
  have avg: "jdiv (reduceAdd (map Fin ?rs)) (Fin (real ?n)) = Fin (meanFrameSimilarity fp1 fp2)"
    unfolding reduceAdd_Fin meanFrameSimilarity_def l by (rule jdiv_Fin[OF n])
  show ?thesis
    unfolding compareFingerprintsAligned_def Let_def sims good ratio avg
    by (simp add: REQUIRE_TEMPORAL_CONSISTENCY_def MIN_CONSISTENT_FRAMES_def)
qed

lemma sum_list_bounds:
  "\<forall>s \<in> set rs. 0 \<le> s \<and> s \<le> (1::real) \<Longrightarrow> 0 \<le> sum_list rs \<and> sum_list rs \<le> real (length rs)"
  by (induction rs) auto

lemma mean_range:
  "0 \<le> meanFrameSimilarity fp1 fp2 \<and> meanFrameSimilarity fp1 fp2 \<le> 1"
proof -
  let ?rs = "frameScores fp1 fp2"
  have b: "0 \<le> sum_list ?rs \<and> sum_list ?rs \<le> real (length ?rs)"
    by (rule sum_list_bounds) (use frameScores_range in blast)
  show ?thesis
  proof (cases "length ?rs = 0")
    case True thus ?thesis by (simp add: meanFrameSimilarity_def)
  next
    case False
    hence "0 < real (length ?rs)" by simp
    thus ?thesis using b unfolding meanFrameSimilarity_def
      by (simp add: divide_le_eq)
  qed
qed

lemma mean_self: "0 < length fp \<Longrightarrow> meanFrameSimilarity fp fp = 1"
  by (simp add: meanFrameSimilarity_def frameScores_self sum_list_replicate)

lemma good_self: "0 < length fp \<Longrightarrow> goodFrameFraction fp fp = 1"
  by (simp add: goodFrameFraction_def frameScores_self)

lemma aligned_self: "0 < length fp \<Longrightarrow> compareFingerprintsAligned fp fp = Fin 1"
  by (simp add: aligned_value mean_self good_self)

lemma aligned_sym: "compareFingerprintsAligned fp1 fp2 = compareFingerprintsAligned fp2 fp1"
  by (simp add: compareFingerprintsAligned_def frameSimilarities_scores
        frameScores_sym[of fp1 fp2] min.commute)

lemma aligned_range:
  assumes "0 < min (length fp1) (length fp2)"
  shows "\<exists>s. compareFingerprintsAligned fp1 fp2 = Fin s \<and> 0 \<le> s \<and> s \<le> 1"
  using mean_range[of fp1 fp2] by (auto simp: aligned_value[OF assms])

lemma compare_unfold:
  assumes "10 \<le> min (length fp1) (length fp2)"
  shows "compareFingerprints fp1 fp2 =
       jmul (compareFingerprintsAligned fp1 fp2)
         (Fin (if real (min (length fp1) (length fp2)) / real (max (length fp1) (length fp2)) < 0.7
            then 0.85 else 1))"
proof -
  from assms have ng: "\<not> min (length fp1) (length fp2) < 10" by linarith
  from assms have "0 < max (length fp1) (length fp2)" by linarith
  hence "0 < real (max (length fp1) (length fp2))" by (simp only: of_nat_0_less_iff)
  hence m: "real (max (length fp1) (length fp2)) \<noteq> 0" by linarith
  show ?thesis
    unfolding compareFingerprints_def Let_def jdiv_Fin[OF m]
    using ng by simp
qed

lemma compare_range: "\<exists>s. compareFingerprints fp1 fp2 = Fin s \<and> 0 \<le> s \<and> s \<le> 1"
proof (cases "min (length fp1) (length fp2) < 10")
  case True thus ?thesis by (simp add: compareFingerprints_def)
next
  case False
  hence ge: "10 \<le> min (length fp1) (length fp2)" by linarith
  hence pos: "0 < min (length fp1) (length fp2)" by linarith
  from aligned_range[OF pos] obtain s where s: "compareFingerprintsAligned fp1 fp2 = Fin s"
     "0 \<le> s" "s \<le> 1" by blast
  have "0 \<le> s * 0.85 \<and> s * 0.85 \<le> 1" using s by simp
  thus ?thesis unfolding compare_unfold[OF ge] s(1) using s(2,3) by simp
qed

lemma compare_self: 
  assumes "10 \<le> length fp" 
  shows "compareFingerprints fp fp = Fin 1"
proof -
  from assms have ge: "10 \<le> min (length fp) (length fp)" by simp
  from assms have pos: "0 < length fp" by linarith
  hence "real (length fp) \<noteq> 0" by simp
  thus ?thesis unfolding compare_unfold[OF ge] aligned_self[OF pos] by simp
qed

lemma compare_sym: "compareFingerprints fp1 fp2 = compareFingerprints fp2 fp1"
  unfolding compareFingerprints_def aligned_sym[of fp1 fp2] min.commute[of "length fp1"]
    max.commute[of "length fp1"] by (rule refl)

section \<open>The matching loop and the ranking\<close>

lemma scoreOf_Fin: "\<exists>s. score (scoreOf fp entry) = Fin s \<and> 0 \<le> s \<and> s \<le> 1"
  using compare_range by (cases entry) (simp add: scoreOf_def)

lemma score_scoreOf: "score (scoreOf fp entry) = Fin (scoreValue (scoreOf fp entry))"
  using scoreOf_Fin[of fp entry] by (auto simp: scoreValue_def)

lemma scoreValue_range: "0 \<le> scoreValue (scoreOf fp entry) \<and> scoreValue (scoreOf fp entry) \<le> 1"
  using scoreOf_Fin[of fp entry] by (auto simp: scoreValue_def)

lemma matchStep_fold:
  "\<exists>bm'. fold (matchStep uid fp) db (bm, Fin b, acc) =
      (bm', Fin (fold max (map (\<lambda>e. scoreValue (scoreOf fp e)) (candidates uid db)) b),
       acc @ map (scoreOf fp) (candidates uid db))
    \<and> ((bm = None \<and> (\<forall>e \<in> set (candidates uid db). scoreValue (scoreOf fp e) \<le> b)) \<longrightarrow> bm' = None)"
proof (induction db arbitrary: bm b acc)
  case Nil
  show ?case by (simp add: candidates_def)
next
  case (Cons e db)
  show ?case
  proof (cases "skipped uid (snd e)")
    case True
    hence "matchStep uid fp e (bm, Fin b, acc) = (bm, Fin b, acc)" by (simp add: matchStep_def)
    moreover have "candidates uid (e # db) = candidates uid db" using True by (simp add: candidates_def)
    ultimately show ?thesis using Cons.IH[of bm b acc] by simp
  next
    case False
    let ?v = "scoreValue (scoreOf fp e)"
    have c: "candidates uid (e # db) = e # candidates uid db" using False by (simp add: candidates_def)
    show ?thesis
    proof (cases "b < ?v")
      case True
      hence st: "matchStep uid fp e (bm, Fin b, acc) = (Some (audioId (scoreOf fp e)), Fin ?v, acc @ [scoreOf fp e])"
        using False by (simp add: matchStep_def Let_def jgt_def score_scoreOf)
      have m: "max ?v b = ?v" using True by simp
      from Cons.IH[of "Some (audioId (scoreOf fp e))" ?v "acc @ [scoreOf fp e]"]
      show ?thesis using True by (auto simp: c st m)
    next
      case nlt: False
      hence st: "matchStep uid fp e (bm, Fin b, acc) = (bm, Fin b, acc @ [scoreOf fp e])"
        using False by (simp add: matchStep_def Let_def jgt_def score_scoreOf)
      have m: "max ?v b = b" using nlt by simp
      from Cons.IH[of bm b "acc @ [scoreOf fp e]"]
      show ?thesis using nlt by (auto simp: c st m)
    qed
  qed
qed

lemma mset_insertScore: "mset (insertScore x ys) = add_mset x (mset ys)"
  by (induction ys) simp_all

lemma mset_sortScores: "mset (sortScores xs) = mset xs"
  by (induction xs) (simp_all add: sortScores_def mset_insertScore)

lemma set_insertScore: "set (insertScore x ys) = insert x (set ys)"
  using mset_insertScore[of x ys] by (metis set_mset_add_mset_insert set_mset_mset)

lemma set_sortScores: "set (sortScores xs) = set xs"
  using mset_sortScores[of xs] by (metis set_mset_mset)

lemma jgt_cmpScore:
  "score x = Fin (scoreValue x) \<Longrightarrow> score y = Fin (scoreValue y) \<Longrightarrow>
   jgt (cmpScore x y) (Fin 0) = (scoreValue x < scoreValue y)"
  by (simp add: cmpScore_def jsub_def jgt_def)

lemma sorted_insertScore:
  assumes "score x = Fin (scoreValue x)" "finiteScores ys"
    "sorted_wrt (\<lambda>a b. scoreValue b \<le> scoreValue a) ys"
  shows "sorted_wrt (\<lambda>a b. scoreValue b \<le> scoreValue a) (insertScore x ys)"
  using assms
proof (induction ys)
  case Nil
  show ?case by simp
next
  case (Cons y ys)
  have y: "score y = Fin (scoreValue y)" using Cons.prems(2) by (simp add: finiteScores_def)
  have ys: "finiteScores ys" using Cons.prems(2) by (simp add: finiteScores_def)
  show ?case
  proof (cases "scoreValue x < scoreValue y")
    case True
    have "sorted_wrt (\<lambda>a b. scoreValue b \<le> scoreValue a) (insertScore x ys)"
      using Cons.IH[OF Cons.prems(1) ys] Cons.prems(3) by simp
    thus ?thesis using True Cons.prems(3)
      by (auto simp: jgt_cmpScore[OF Cons.prems(1) y] set_insertScore)
  next
    case False
    thus ?thesis using Cons.prems(3)
      by (auto simp: jgt_cmpScore[OF Cons.prems(1) y])
  qed
qed

lemma sorted_sortScores:
  "finiteScores xs \<Longrightarrow> sorted_wrt (\<lambda>a b. scoreValue b \<le> scoreValue a) (sortScores xs)"
proof (induction xs)
  case Nil
  show ?case by (simp add: sortScores_def)
next
  case (Cons x xs)
  have x: "score x = Fin (scoreValue x)" using Cons.prems by (simp add: finiteScores_def)
  have xs: "finiteScores xs" using Cons.prems by (simp add: finiteScores_def)
  have fs: "finiteScores (sortScores xs)" using xs by (simp add: finiteScores_def set_sortScores)
  have "sortScores (x # xs) = insertScore x (sortScores xs)" by (simp add: sortScores_def)
  thus ?case using sorted_insertScore[OF x fs Cons.IH[OF xs]] by simp
qed

lemma finiteScores_scoreOf: "finiteScores (map (scoreOf fp) es)"
  using score_scoreOf by (auto simp: finiteScores_def)

lemma ranked_jge:
  assumes "finiteScores xs" "sorted_wrt (\<lambda>a b. scoreValue b \<le> scoreValue a) xs"
  shows "sorted_wrt (\<lambda>a b. jge (score a) (score b)) xs"
proof -
  have "\<And>a b. a \<in> set xs \<Longrightarrow> b \<in> set xs \<Longrightarrow> scoreValue b \<le> scoreValue a
      \<Longrightarrow> jge (score a) (score b)"
  proof -
    fix a b assume a: "a \<in> set xs" and b: "b \<in> set xs" and le: "scoreValue b \<le> scoreValue a"
    have "score a = Fin (scoreValue a)" "score b = Fin (scoreValue b)"
      using assms(1) a b by (auto simp: finiteScores_def)
    thus "jge (score a) (score b)" using le by (simp add: jge_def)
  qed
  thus ?thesis using assms(2) by (auto elim: sorted_wrt_mono_rel[rotated])
qed

lemma fold_max_ge: "(b::real) \<le> fold max xs b"
proof (induction xs arbitrary: b)
  case Nil show ?case by simp
next
  case (Cons y ys)
  have "b \<le> max y b" by simp
  also have "\<dots> \<le> fold max ys (max y b)" by (rule Cons)
  finally show ?case by simp
qed

lemma fold_max_upper: "x \<in> set xs \<Longrightarrow> (x::real) \<le> fold max xs b"
proof (induction xs arbitrary: b)
  case Nil thus ?case by simp
next
  case (Cons y ys)
  show ?case
  proof (cases "x = y")
    case True
    have "max y b \<le> fold max ys (max y b)" by (rule fold_max_ge)
    thus ?thesis using True by simp
  next
    case False
    thus ?thesis using Cons by simp
  qed
qed

lemma fold_max_mem: "fold max xs (b::real) = b \<or> fold max xs b \<in> set xs"
proof (induction xs arbitrary: b)
  case Nil show ?case by simp
next
  case (Cons y ys)
  from Cons[of "max y b"] show ?case by (auto simp: max_def split: if_splits)
qed

lemma mapSet_mem: "(k, v) \<in> set (mapSet db k v)"
  by (induction db) auto

lemma matchAudio_confidence:
  "confidence (matchAudio database fp threshold uid) =
     Fin (fold max (map (\<lambda>e. scoreValue (scoreOf fp e)) (candidates uid database)) 0)"
proof -
  from matchStep_fold[of uid fp database None 0 "[]"] obtain bm where
    "fold (matchStep uid fp) database (None, Fin 0, []) =
       (bm, Fin (fold max (map (\<lambda>e. scoreValue (scoreOf fp e)) (candidates uid database)) 0),
        map (scoreOf fp) (candidates uid database))" by auto
  thus ?thesis by (simp add: matchAudio_def Let_def)
qed

lemma confidence_range:
  "\<exists>c. confidence (matchAudio database fp threshold uid) = Fin c \<and> 0 \<le> c \<and> c \<le> 1"
proof -
  let ?vals = "map (\<lambda>e. scoreValue (scoreOf fp e)) (candidates uid database)"
  have "0 \<le> fold max ?vals 0" by (rule fold_max_ge)
  moreover have "fold max ?vals 0 \<le> 1"
    using fold_max_mem[of ?vals 0] scoreValue_range[of fp] by auto
  ultimately show ?thesis by (simp add: matchAudio_confidence)
qed

section \<open>Properties of the matcher\<close>

text \<open>
  Claim C1. Every feature compared with itself has similarity 1, so a frame compared with
  itself has the sum of the weights as its similarity, and a fingerprint of at least 10
  frames compared with itself scores exactly 1, hence at least 0.99. After \<^verbatim>\<open>storeAudio\<close>
  has registered it, \<^verbatim>\<open>matchAudio\<close> on the same fingerprint reports a finite confidence
  of at least 0.99, for every threshold and every prior content of the store, when the
  registered entry passes the owner filter (no filter, or the filter is the registering
  owner).
\<close>

theorem self_match_confidence:
  assumes "10 \<le> length fp"
  shows "featureSimilarity feature v v = Fin 1
    \<and> frameSimilarity f f = Fin (sum_list (map snd weights))
    \<and> compareFingerprints fp fp = Fin 1
    \<and> (\<not> truthy uid \<or> uid = owner \<longrightarrow>
        (\<exists>c. confidence (matchAudio (storeAudio database fp aid owner timestamp) fp threshold uid) = Fin c
             \<and> 0.99 \<le> c))"
proof -
  have self: "compareFingerprints fp fp = Fin 1" by (rule compare_self[OF assms])
  let ?db = "storeAudio database fp aid owner timestamp"
  let ?e = "(aid, Stored fp owner timestamp)"
  let ?vals = "map (\<lambda>e. scoreValue (scoreOf fp e)) (candidates uid ?db)"
  have conf: "0.99 \<le> fold max ?vals 0" if f: "\<not> truthy uid \<or> uid = owner"
  proof -
    have "?e \<in> set ?db" by (simp add: storeAudio_def mapSet_mem)
    moreover have "\<not> skipped uid (snd ?e)" using f by (auto simp: skipped_def)
    ultimately have "?e \<in> set (candidates uid ?db)" by (simp add: candidates_def)
    hence "scoreValue (scoreOf fp ?e) \<in> set ?vals" by force
    hence "scoreValue (scoreOf fp ?e) \<le> fold max ?vals 0" by (rule fold_max_upper)
    moreover have "scoreValue (scoreOf fp ?e) = 1" by (simp add: scoreValue_def scoreOf_def self)
    ultimately show ?thesis by simp
  qed
  show ?thesis using self conf
    by (simp add: matchAudio_confidence featureSimilarity_self frameSimilarity_self weights_sum)
qed

text \<open>
Claim C1 at a ten-frame clip registered into the empty store and matched with the default threshold.
\<close>

theorem self_match_confidence_witness:
  "compareFingerprints silentClip silentClip = Fin 1
   \<and> (\<exists>c. confidence (matchAudio
          (storeAudio [] silentClip ''clap'' (Some ''u1'') ''2026-01-17T00:00:00.000Z'')
          silentClip DEFAULT_THRESHOLD None) = Fin c \<and> 0.99 \<le> c)"
proof -
  have l: "10 \<le> length silentClip" by (simp add: silentClip_def)
  show ?thesis
    using self_match_confidence[OF l, where uid = None and owner = "Some ''u1''"
      and database = "[]" and aid = "''clap''" and timestamp = "''2026-01-17T00:00:00.000Z''"
      and threshold = DEFAULT_THRESHOLD]
    by (simp add: truthy_def)
qed

text \<open>
  Claim C2. The 17 weights sum to exactly 1; every per-feature similarity is a finite
  number above 0 and at most 1; every frame similarity, every score returned by
  \<^verbatim>\<open>compareFingerprints\<close> and every confidence returned by \<^verbatim>\<open>matchAudio\<close> is a finite
  number in the interval from 0 to 1.
\<close>

theorem scores_in_unit_interval:
  "sum_list (map snd weights) = 1 \<and> length weights = 17
   \<and> (\<exists>r. featureSimilarity feature v1 v2 = Fin r \<and> 0 < r \<and> r \<le> 1)
   \<and> (\<exists>r. frameSimilarity f1 f2 = Fin r \<and> 0 \<le> r \<and> r \<le> 1)
   \<and> (\<exists>s. compareFingerprints fp1 fp2 = Fin s \<and> 0 \<le> s \<and> s \<le> 1)
   \<and> (\<exists>c. confidence (matchAudio database fp threshold uid) = Fin c \<and> 0 \<le> c \<and> c \<le> 1)"
  using weights_sum featureSimilarity_range frameSimilarity_range compare_range confidence_range
  by (simp add: weights_def)

lemma wild_value:
  "frameSimilarity silentFrame wildFrame =
     Fin (49 * exp (- 2) / 50 + exp (- 10) / 100 + exp (- (22048 / 2205)) / 100)"
  by (simp add: frameSimilarity_def weights_def frameStep_def featureSimilarity_def orZero_def
      silentFrame_def wildFrame_def)

lemma exp_minus_two: "exp (- 2 :: real) \<le> 1 / 2"
proof -
  have "1 + (2::real) \<le> exp 2" by (rule exp_ge_add_one_self)
  hence "(2::real) \<le> exp 2" by simp
  hence "1 / exp (2::real) \<le> 1 / 2" by (simp add: field_simps)
  thus ?thesis by (simp add: exp_minus inverse_eq_divide)
qed

lemma wild_low: "fin (frameSimilarity silentFrame wildFrame) \<le> 0.51"
proof -
  have a: "exp (- 10 :: real) \<le> 1" by simp
  have b: "exp (- (22048 / 2205) :: real) \<le> 1" by simp
  have "49 * exp (- 2) / 50 + exp (- 10) / 100 + exp (- (22048 / 2205)) / 100 \<le> (51 / 100 :: real)"
    using exp_minus_two a b by linarith
  thus ?thesis by (simp add: wild_value)
qed

lemma half_wild_scores:
  "frameScores silentClip halfWildClip =
     replicate 5 1 @ replicate 5 (fin (frameSimilarity silentFrame wildFrame))"
proof -
  have "replicate 10 silentFrame = replicate 5 silentFrame @ replicate 5 silentFrame"
    by (simp add: replicate_add[symmetric])
  thus ?thesis by (simp add: silentClip_def halfWildClip_def frameScores_def frameSimilarity_self)
qed

lemma half_wild_fraction: "goodFrameFraction silentClip halfWildClip = 0.5"
  using wild_low by (simp add: goodFrameFraction_def half_wild_scores)

lemma half_wild_mean:
  "0.5 \<le> meanFrameSimilarity silentClip halfWildClip
   \<and> meanFrameSimilarity silentClip halfWildClip \<le> 0.755"
  using wild_low fin_frameSimilarity_range[of silentFrame wildFrame]
  by (simp add: meanFrameSimilarity_def half_wild_scores sum_list_replicate)

lemma half_wild_compare:
  "compareFingerprints silentClip halfWildClip =
     Fin (meanFrameSimilarity silentClip halfWildClip / 2)"
proof -
  have l: "10 \<le> min (length silentClip) (length halfWildClip)"
    by (simp add: silentClip_def halfWildClip_def)
  hence p: "0 < min (length silentClip) (length halfWildClip)" by linarith
  have r: "\<not> real (min (length silentClip) (length halfWildClip))
              / real (max (length silentClip) (length halfWildClip)) < 0.7"
    by (simp add: silentClip_def halfWildClip_def)
  show ?thesis
    unfolding compare_unfold[OF l] aligned_value[OF p] half_wild_fraction using r by simp
qed

text \<open>
  Claim C3. For fingerprints with at least 10 aligned frames, \<^verbatim>\<open>compareFingerprintsAligned\<close>
  returns half of the mean frame similarity when the fraction of frames whose similarity
  exceeds 0.7 is strictly below 0.6, and the mean frame similarity otherwise. In
  particular, when exactly half of the frames match well, the score is at most half of the
  mean frame similarity.
\<close>

theorem temporal_consistency_gate:
  assumes "10 \<le> min (length fp1) (length fp2)"
  shows "compareFingerprintsAligned fp1 fp2 =
      Fin (if goodFrameFraction fp1 fp2 < 0.6 then meanFrameSimilarity fp1 fp2 / 2
           else meanFrameSimilarity fp1 fp2)
    \<and> (goodFrameFraction fp1 fp2 = 0.5 \<longrightarrow>
         (\<exists>s. compareFingerprintsAligned fp1 fp2 = Fin s \<and> s \<le> 0.5 * meanFrameSimilarity fp1 fp2))"
proof -
  from assms have "0 < min (length fp1) (length fp2)" by linarith
  note v = aligned_value[OF this]
  have "\<exists>s. compareFingerprintsAligned fp1 fp2 = Fin s \<and> s \<le> 0.5 * meanFrameSimilarity fp1 fp2"
    if "goodFrameFraction fp1 fp2 = 0.5"
  proof -
    from that have "goodFrameFraction fp1 fp2 < 0.6" by simp
    hence "compareFingerprintsAligned fp1 fp2 = Fin (meanFrameSimilarity fp1 fp2 / 2)"
      using v by simp
    thus ?thesis by (intro exI[of _ "meanFrameSimilarity fp1 fp2 / 2"]) simp
  qed
  thus ?thesis using v by blast
qed

text \<open>
  Claim C3 at a pair of ten-frame clips whose first five frames agree and whose last five
  frames differ in every feature: the fraction of good frames is one half and the score
  is halved.
\<close>

theorem temporal_consistency_gate_witness:
  "10 \<le> min (length silentClip) (length halfWildClip)
   \<and> goodFrameFraction silentClip halfWildClip = 0.5
   \<and> compareFingerprintsAligned silentClip halfWildClip
       = Fin (meanFrameSimilarity silentClip halfWildClip / 2)"
proof -
  have l: "10 \<le> min (length silentClip) (length halfWildClip)"
    by (simp add: silentClip_def halfWildClip_def)
  show ?thesis
    using temporal_consistency_gate[OF l] half_wild_fraction l by simp
qed

text \<open>
  Claim C6. The ranked list of \<^verbatim>\<open>matchAudio\<close> always holds exactly one entry for each
  stored entry that passes the owner filter, in descending order of score. When the
  confidence is below the threshold the match is null; when there is a candidate the
  confidence is the top score of the ranked list; when there is none (empty store, or the
  owner filter rejects every entry) the confidence is 0, the match is null and the list is
  empty.
\<close>

theorem match_report:
  "(let r = matchAudio database unknownFingerprint threshold uid;
        cands = candidates uid database
    in mset (allScores r) = mset (map (scoreOf unknownFingerprint) cands)
     \<and> sorted_wrt (\<lambda>a b. jge (score a) (score b)) (allScores r)
     \<and> (jlt (confidence r) (Fin threshold) \<longrightarrow> match r = None)
     \<and> (cands \<noteq> [] \<longrightarrow> confidence r = score (hd (allScores r)))
     \<and> (cands = [] \<longrightarrow> confidence r = Fin 0 \<and> match r = None \<and> allScores r = []))"
proof -
  let ?fp = unknownFingerprint
  let ?cands = "candidates uid database"
  let ?es = "map (scoreOf ?fp) ?cands"
  let ?vals = "map (\<lambda>e. scoreValue (scoreOf ?fp e)) ?cands"
  let ?best = "fold max ?vals 0"
  let ?r = "matchAudio database ?fp threshold uid"
  from matchStep_fold[of uid ?fp database None 0 "[]"] obtain bm where
    loop: "fold (matchStep uid ?fp) database (None, Fin 0, []) = (bm, Fin ?best, ?es)"
    and none: "(\<forall>e \<in> set ?cands. scoreValue (scoreOf ?fp e) \<le> 0) \<longrightarrow> bm = None"
    by auto
  have conf: "confidence ?r = Fin ?best" by (simp add: matchAudio_def loop Let_def)
  have ranked: "allScores ?r = sortScores ?es" by (simp add: matchAudio_def loop Let_def)
  have m: "match ?r = (if jge (Fin ?best) (Fin threshold) then bm else None)"
    by (simp add: matchAudio_def loop Let_def)
  have fs: "finiteScores (sortScores ?es)"
    using finiteScores_scoreOf[of ?fp ?cands] by (simp add: finiteScores_def set_sortScores)
  have srt: "sorted_wrt (\<lambda>a b. scoreValue b \<le> scoreValue a) (sortScores ?es)"
    by (rule sorted_sortScores[OF finiteScores_scoreOf])
  have c1: "mset (allScores ?r) = mset ?es" by (simp add: ranked mset_sortScores)
  have c2: "sorted_wrt (\<lambda>a b. jge (score a) (score b)) (allScores ?r)"
    unfolding ranked by (rule ranked_jge[OF fs srt])
  have c3: "jlt (confidence ?r) (Fin threshold) \<longrightarrow> match ?r = None"
    by (simp add: conf m jge_def)
  have c4: "confidence ?r = score (hd (allScores ?r))" if ne: "?cands \<noteq> []"
  proof -
    have sne: "sortScores ?es \<noteq> []" using ne mset_sortScores[of ?es] by (metis map_is_Nil_conv mset_zero_iff)
    then obtain h t where ht: "sortScores ?es = h # t" by (cases "sortScores ?es") auto
    have hin: "h \<in> set ?es" using ht set_sortScores[of ?es] by (metis list.set_intros(1))
    then obtain c where c: "c \<in> set ?cands" "h = scoreOf ?fp c" by auto
    have hfin: "score h = Fin (scoreValue h)" using c score_scoreOf by simp
    have upper: "scoreValue h \<le> ?best"
      using c by (intro fold_max_upper) auto
    have ge_all: "\<forall>e \<in> set ?es. scoreValue e \<le> scoreValue h"
    proof
      fix e assume "e \<in> set ?es"
      hence "e \<in> set (h # t)" using ht set_sortScores[of ?es] by simp
      thus "scoreValue e \<le> scoreValue h" using srt ht by auto
    qed
    have lower: "?best \<le> scoreValue h"
    proof -
      from fold_max_mem[of ?vals 0] show ?thesis
      proof
        assume "?best = 0"
        thus ?thesis using scoreValue_range[of ?fp c] c by simp
      next
        assume "?best \<in> set ?vals"
        then obtain d where "d \<in> set ?cands" "?best = scoreValue (scoreOf ?fp d)" by auto
        thus ?thesis using ge_all by auto
      qed
    qed
    show ?thesis using upper lower hfin by (simp add: conf ranked ht)
  qed
  have c5: "confidence ?r = Fin 0 \<and> match ?r = None \<and> allScores ?r = []" if "?cands = []"
    using that none by (simp add: conf m ranked sortScores_def)
  show ?thesis unfolding Let_def using c1 c2 c3 c4 c5 by blast
qed

text \<open>
  Claim C6 at the empty store, and at a store of one clip against which the unknown clip
  scores between 0.25 and the default threshold: the match is null and the confidence is
  the top score of the ranking.
\<close>

theorem match_report_witness:
  "(let r = matchAudio [] silentClip DEFAULT_THRESHOLD None
    in confidence r = Fin 0 \<and> match r = None \<and> allScores r = [])
   \<and> (let r = matchAudio [(''clap'', Stored halfWildClip (Some ''u1'') ''2026-01-17T00:00:00.000Z'')]
                silentClip DEFAULT_THRESHOLD None
      in jlt (confidence r) (Fin DEFAULT_THRESHOLD) \<and> jge (confidence r) (Fin 0.25)
         \<and> match r = None \<and> confidence r = score (hd (allScores r)))"
proof -
  let ?db = "[(''clap'', Stored halfWildClip (Some ''u1'') ''2026-01-17T00:00:00.000Z'')]"
  let ?m = "meanFrameSimilarity silentClip halfWildClip"
  have a: "candidates None [] = []" by (simp add: candidates_def)
  have c: "candidates None ?db = ?db" by (simp add: candidates_def skipped_def truthy_def)
  hence b: "candidates None ?db \<noteq> []" by simp
  have v: "scoreValue (scoreOf silentClip (''clap'', Stored halfWildClip (Some ''u1'') ''2026-01-17T00:00:00.000Z'')) = ?m / 2"
    by (simp add: scoreValue_def scoreOf_def half_wild_compare)
  have conf: "confidence (matchAudio ?db silentClip DEFAULT_THRESHOLD None) = Fin (?m / 2)"
    unfolding matchAudio_confidence c using half_wild_mean by (simp add: v)
  have lt: "jlt (confidence (matchAudio ?db silentClip DEFAULT_THRESHOLD None)) (Fin DEFAULT_THRESHOLD)"
    unfolding conf using half_wild_mean by (simp add: DEFAULT_THRESHOLD_def)
  have ge: "jge (confidence (matchAudio ?db silentClip DEFAULT_THRESHOLD None)) (Fin 0.25)"
    unfolding conf using half_wild_mean by (simp add: jge_def)
  show ?thesis
    using match_report[of "[]" silentClip DEFAULT_THRESHOLD None]
      match_report[of ?db silentClip DEFAULT_THRESHOLD None] a b lt ge
    by (simp add: Let_def)
qed

text \<open>
  Claim C7 as stated for every pair of fingerprints fails below the length gate: two equal
  one-frame fingerprints have aligned score 1 and length ratio 1, and
  \<^verbatim>\<open>compareFingerprints\<close> returns 0.
\<close>

theorem length_ratio_penalty_counterexample:
  "compareFingerprints [silentFrame] [silentFrame] \<noteq>
     jmul (compareFingerprintsAligned [silentFrame] [silentFrame])
       (Fin (if real (min (length [silentFrame]) (length [silentFrame]))
                / real (max (length [silentFrame]) (length [silentFrame])) < 0.7
             then 0.85 else 1.0))"
proof -
  have "compareFingerprintsAligned [silentFrame] [silentFrame] = Fin 1"
    by (rule aligned_self) simp
  moreover have "compareFingerprints [silentFrame] [silentFrame] = Fin 0"
    by (simp add: compareFingerprints_def)
  ultimately show ?thesis by simp
qed

text \<open>
  Claim C7, amended. For fingerprints that pass the length gate (at least 10 frames each),
  \<^verbatim>\<open>compareFingerprints\<close> returns the aligned score times 0.85 when the ratio of the
  smaller to the larger length is below 0.7, and the aligned score unchanged otherwise.
\<close>

theorem length_ratio_penalty:
  assumes "10 \<le> min (length fp1) (length fp2)"
  shows "compareFingerprints fp1 fp2 =
       jmul (compareFingerprintsAligned fp1 fp2)
         (Fin (if real (min (length fp1) (length fp2)) / real (max (length fp1) (length fp2)) < 0.7
            then 0.85 else 1.0))"
  using compare_unfold[OF assms] by simp

text \<open>
Claim C7, amended, at clips of 10 and 20 frames (ratio 0.5) and at two clips of 10 frames (ratio 1).
\<close>

theorem length_ratio_penalty_witness:
  "compareFingerprints silentClip (replicate 20 silentFrame) =
     jmul (compareFingerprintsAligned silentClip (replicate 20 silentFrame)) (Fin 0.85)
   \<and> compareFingerprints silentClip silentClip =
     jmul (compareFingerprintsAligned silentClip silentClip) (Fin 1.0)"
  using length_ratio_penalty[of silentClip "replicate 20 silentFrame"]
    length_ratio_penalty[of silentClip silentClip]
  by (simp add: silentClip_def)

text \<open>
  Claim C8. When the shorter of the two fingerprints has fewer than 10 frames,
  \<^verbatim>\<open>compareFingerprints\<close> returns exactly 0, whatever the frames contain.
\<close>

theorem length_gate:
  assumes "min (length fp1) (length fp2) < 10"
  shows "compareFingerprints fp1 fp2 = Fin 0"
  using assms by (simp add: compareFingerprints_def)

text \<open>
Claim C8 at clips of 9 and 40 frames.
\<close>

theorem length_gate_witness:
  "compareFingerprints (replicate 9 silentFrame) (replicate 40 silentFrame) = Fin 0"
  using length_gate[of "replicate 9 silentFrame" "replicate 40 silentFrame"] by simp

text \<open>
Claim C10. \<^verbatim>\<open>compareFingerprints\<close> is symmetric in its two arguments.
\<close>

theorem compareFingerprints_symmetric:
  "compareFingerprints a b = compareFingerprints b a"
  by (rule compare_sym)

section \<open>Properties of the signal conditioner\<close>

lemma maxAmp_fold_ge: "m \<le> fold (\<lambda>x m. if \<bar>x\<bar> > m then \<bar>x\<bar> else m) xs (m::real)"
proof (induction xs arbitrary: m)
  case Nil show ?case by simp
next
  case (Cons y ys)
  have "m \<le> (if \<bar>y\<bar> > m then \<bar>y\<bar> else m)" by simp
  also have "\<dots> \<le> fold (\<lambda>x m. if \<bar>x\<bar> > m then \<bar>x\<bar> else m) ys (if \<bar>y\<bar> > m then \<bar>y\<bar> else m)"
    by (rule Cons)
  finally show ?case by simp
qed

lemma maxAmp_fold_upper:
  "x \<in> set xs \<Longrightarrow> \<bar>x\<bar> \<le> fold (\<lambda>x m. if \<bar>x\<bar> > m then \<bar>x\<bar> else m) xs (m::real)"
proof (induction xs arbitrary: m)
  case Nil thus ?case by simp
next
  case (Cons y ys)
  let ?m' = "if \<bar>y\<bar> > m then \<bar>y\<bar> else m"
  show ?case
  proof (cases "x = y")
    case True
    have "\<bar>y\<bar> \<le> ?m'" by simp
    also have "\<dots> \<le> fold (\<lambda>x m. if \<bar>x\<bar> > m then \<bar>x\<bar> else m) ys ?m'" by (rule maxAmp_fold_ge)
    finally show ?thesis using True by simp
  next
    case False
    hence "x \<in> set ys" using Cons.prems by simp
    from Cons.IH[OF this, of ?m'] show ?thesis by simp
  qed
qed

lemma maxAmp_fold_zero:
  "\<forall>x \<in> set xs. x = 0 \<Longrightarrow> fold (\<lambda>x m. if \<bar>x\<bar> > m then \<bar>x\<bar> else m) xs (0::real) = 0"
  by (induction xs) simp_all

lemma normalizeAudio_bound: "x \<in> set (normalizeAudio samples) \<Longrightarrow> \<bar>x\<bar> \<le> 1"
proof -
  assume x: "x \<in> set (normalizeAudio samples)"
  let ?m = "maxAmplitudeOf samples"
  have ge: "0 \<le> ?m" unfolding maxAmplitudeOf_def by (rule maxAmp_fold_ge)
  show ?thesis
  proof (cases "?m = 0")
    case True
    hence "x \<in> set samples" using x by (simp add: normalizeAudio_def)
    hence "\<bar>x\<bar> \<le> ?m" unfolding maxAmplitudeOf_def by (rule maxAmp_fold_upper)
    thus ?thesis using True by simp
  next
    case False
    hence pos: "0 < ?m" using ge by simp
    from x False obtain s where s: "s \<in> set samples" "x = s / ?m"
      by (auto simp: normalizeAudio_def Let_def)
    have "\<bar>s\<bar> \<le> ?m" using s(1) unfolding maxAmplitudeOf_def by (rule maxAmp_fold_upper)
    thus ?thesis using pos s(2) by (simp add: divide_le_eq)
  qed
qed

lemma normalizeAudio_zero: "\<forall>x \<in> set samples. x = 0 \<Longrightarrow> normalizeAudio samples = samples"
  by (simp add: normalizeAudio_def maxAmplitudeOf_def maxAmp_fold_zero)

lemma hpAlpha_value:
  assumes "0 < cutoffFreq" "0 < sampleRate"
  shows "hpAlpha cutoffFreq sampleRate =
     Fin ((1 / (cutoffFreq * 2 * pi)) / (1 / (cutoffFreq * 2 * pi) + 1 / sampleRate))"
proof -
  have a: "cutoffFreq * 2 * pi \<noteq> 0" using assms by simp
  have b: "sampleRate \<noteq> 0" using assms by simp
  have "0 < 1 / (cutoffFreq * 2 * pi) + 1 / sampleRate" using assms by (simp add: add_pos_pos)
  hence c: "1 / (cutoffFreq * 2 * pi) + 1 / sampleRate \<noteq> 0" by linarith
  show ?thesis unfolding hpAlpha_def Let_def using a b c by simp
qed

lemma frac_unit: "0 < (r::real) \<Longrightarrow> 0 < d \<Longrightarrow> 0 < r / (r + d) \<and> r / (r + d) < 1"
  by (simp add: add_pos_pos)

lemma hpAlpha_range:
  assumes "0 < cutoffFreq" "0 < sampleRate"
  shows "\<exists>a. hpAlpha cutoffFreq sampleRate = Fin a \<and> 0 < a \<and> a < 1"
proof -
  let ?RC = "1 / (cutoffFreq * 2 * pi)"
  let ?dt = "1 / sampleRate"
  have rc: "0 < ?RC" using assms by simp
  have dt: "0 < ?dt" using assms by simp
  from frac_unit[OF rc dt] show ?thesis using hpAlpha_value[OF assms] by blast
qed

lemma hpLoop_bound:
  assumes a: "0 \<le> a" "a \<le> 1"
  shows "\<bar>y - a * x\<bar> \<le> 1 \<Longrightarrow> \<bar>x\<bar> \<le> 1 \<Longrightarrow> \<forall>s \<in> set xs. \<bar>s\<bar> \<le> 1 \<Longrightarrow>
     \<forall>v \<in> set (hpLoop (Fin a) (Fin y) x xs). \<exists>r. v = Fin r \<and> \<bar>r\<bar> \<le> 1 + a"
proof (induction xs arbitrary: y x)
  case Nil
  show ?case by simp
next
  case (Cons x' xs)
  let ?y' = "a * (y + x' - x)"
  have x': "\<bar>x'\<bar> \<le> 1" using Cons.prems(3) by simp
  have u: "?y' - a * x' = a * (y - a * x) - a * (1 - a) * x" by (simp add: algebra_simps)
  have "a * \<bar>y - a * x\<bar> \<le> a * 1"
    by (rule mult_left_mono[OF Cons.prems(1) a(1)])
  hence "\<bar>a * (y - a * x)\<bar> \<le> a" using a by (simp add: abs_mult)
  moreover have "(a * (1 - a)) * \<bar>x\<bar> \<le> (a * (1 - a)) * 1"
    by (rule mult_left_mono[OF Cons.prems(2)]) (use a in simp)
  hence "\<bar>a * (1 - a) * x\<bar> \<le> a * (1 - a)" using a by (simp add: abs_mult)
  ultimately have "\<bar>?y' - a * x'\<bar> \<le> a + a * (1 - a)" unfolding u by linarith
  moreover have "a + a * (1 - a) \<le> 1"
  proof -
    have "1 - (a + a * (1 - a)) = (1 - a) * (1 - a)" by (simp add: algebra_simps)
    moreover have "0 \<le> (1 - a) * (1 - a)" by simp
    ultimately show ?thesis by linarith
  qed
  ultimately have inv: "\<bar>?y' - a * x'\<bar> \<le> 1" by linarith
  have "a * \<bar>x'\<bar> \<le> a * 1" by (rule mult_left_mono[OF x' a(1)])
  hence "\<bar>a * x'\<bar> \<le> a" using a by (simp add: abs_mult)
  hence y': "\<bar>?y'\<bar> \<le> 1 + a" using inv by linarith
  have rest: "\<forall>s \<in> set xs. \<bar>s\<bar> \<le> 1" using Cons.prems(3) by simp
  have step: "hpLoop (Fin a) (Fin y) x (x' # xs) = Fin ?y' # hpLoop (Fin a) (Fin ?y') x' xs"
    by (simp add: Let_def jsub_def algebra_simps)
  show ?case unfolding step using y' Cons.IH[OF inv x' rest] by simp
qed

lemma hpLoop_zero:
  "\<forall>s \<in> set xs. s = 0 \<Longrightarrow> hpLoop (Fin a) (Fin 0) 0 xs = map Fin xs"
  by (induction xs) (simp_all add: Let_def jsub_def)

lemma alpha_44100:
  "\<exists>a. hpAlpha 80 44100 = Fin a \<and> 0.9856 \<le> a \<and> a \<le> 0.9928"
proof -
  let ?a = "(1 / (80 * 2 * pi)) / (1 / (80 * 2 * pi) + 1 / 44100)"
  have v: "hpAlpha 80 44100 = Fin ?a" by (rule hpAlpha_value) simp_all
  have eq: "?a = 2205 / (2205 + 8 * pi)"
    by (simp add: field_simps)
  have lo: "2205 + 8 * pi \<le> 2237" using pi_less_4 by simp
  have hi: "2221 \<le> 2205 + 8 * pi" using pi_ge_two by simp
  have pos: "0 < 2205 + 8 * pi" using pi_gt_zero by (simp add: add_pos_pos)
  have "0.9856 * (2205 + 8 * pi) \<le> 2205" using lo by simp
  hence l: "0.9856 \<le> 2205 / (2205 + 8 * pi)" using pos by (simp add: le_divide_eq)
  have "2205 \<le> 0.9928 * (2205 + 8 * pi)" using hi by simp
  hence u: "2205 / (2205 + 8 * pi) \<le> 0.9928" using pos by (simp add: divide_le_eq)
  show ?thesis using v eq l u by simp
qed

text \<open>
  Claim C5 as stated fails: the buffer \<open>[-1, -1, -1, 1]\<close> at 44100 Hz is already
  normalized, and its fourth conditioned sample exceeds 1.005. The filter adds the jump
  from \<open>-1\<close> to \<open>1\<close> to the decayed previous output.
\<close>

theorem conditioned_amplitude_counterexample:
  "jgt (conditionSamples [-1, -1, -1, 1] 44100 ! 3) (Fin 1.005)"
proof -
  from alpha_44100 obtain a where a: "hpAlpha 80 44100 = Fin a" "0.9856 \<le> a" "a \<le> 0.9928"
    by blast
  have m: "maxAmplitudeOf [-1, -1, -1, 1] = 1" by (simp add: maxAmplitudeOf_def)
  have n: "normalizeAudio [-1, -1, -1, 1] = [-1, -1, -1, 1]"
    by (simp add: normalizeAudio_def m)
  have v: "conditionSamples [-1, -1, -1, 1] 44100 ! 3 = Fin (a * (2 - a * a))"
    by (simp add: conditionSamples_def n highPassFilter_def a Let_def jsub_def algebra_simps)
  have f: "a * (2 - a * a) = 1 + (1 - a) * (a * a + a - 1)" by (simp add: algebra_simps)
  have "0.9856 * 0.9856 \<le> a * a" using a by (intro mult_mono) simp_all
  hence q: "0.957 \<le> a * a + a - 1" using a by simp
  have p: "0.0072 \<le> 1 - a" using a by simp
  have "0.0072 * 0.957 \<le> (1 - a) * (a * a + a - 1)" using p q by (intro mult_mono) simp_all
  hence "1.005 < a * (2 - a * a)" unfolding f by simp
  thus ?thesis unfolding v by (simp add: jgt_def)
qed

text \<open>
  Claim C5, amended. For a positive sample rate, the normalized buffer has absolute
  amplitude at most 1; every conditioned sample (normalization, then the 80 Hz high-pass
  filter) is finite with absolute value below 2; and an all-zero buffer is returned
  unchanged by normalization and by conditioning.
\<close>

theorem conditioned_amplitude_bound:
  assumes "0 < sampleRate"
  shows "(\<forall>x \<in> set (normalizeAudio samples). \<bar>x\<bar> \<le> 1)
    \<and> (\<forall>y \<in> set (conditionSamples samples sampleRate). \<exists>r. y = Fin r \<and> \<bar>r\<bar> < 2)
    \<and> ((\<forall>x \<in> set samples. x = 0) \<longrightarrow>
          normalizeAudio samples = samples \<and> conditionSamples samples sampleRate = map Fin samples)"
proof -
  from hpAlpha_range[of 80 sampleRate] assms obtain a where
    a: "hpAlpha 80 sampleRate = Fin a" "0 < a" "a < 1" by auto
  have nb: "\<forall>x \<in> set (normalizeAudio samples). \<bar>x\<bar> \<le> 1" using normalizeAudio_bound by blast
  have hp: "\<forall>y \<in> set (highPassFilter xs 80 sampleRate). \<exists>r. y = Fin r \<and> \<bar>r\<bar> < 2"
    if b: "\<forall>x \<in> set xs. \<bar>x\<bar> \<le> 1" for xs
  proof (cases xs)
    case Nil thus ?thesis by (simp add: highPassFilter_def)
  next
    case (Cons x0 rest)
    have x0: "\<bar>x0\<bar> \<le> 1" and r: "\<forall>s \<in> set rest. \<bar>s\<bar> \<le> 1" using b Cons by simp_all
    have "\<bar>(1 - a) * x0\<bar> \<le> (1 - a) * 1"
      unfolding abs_mult using a x0 by (intro mult_mono) simp_all
    hence i: "\<bar>x0 - a * x0\<bar> \<le> 1" using a by (simp add: algebra_simps)
    from hpLoop_bound[of a x0 x0 rest, OF _ _ i x0 r] a
    have "\<forall>v \<in> set (hpLoop (Fin a) (Fin x0) x0 rest). \<exists>r. v = Fin r \<and> \<bar>r\<bar> \<le> 1 + a" by simp
    hence "\<forall>v \<in> set (hpLoop (Fin a) (Fin x0) x0 rest). \<exists>r. v = Fin r \<and> \<bar>r\<bar> < 2"
      using a by fastforce
    thus ?thesis using x0 by (simp add: highPassFilter_def Cons a)
  qed
  have c2: "\<forall>y \<in> set (conditionSamples samples sampleRate). \<exists>r. y = Fin r \<and> \<bar>r\<bar> < 2"
    unfolding conditionSamples_def by (rule hp[OF nb])
  have c3: "normalizeAudio samples = samples \<and> conditionSamples samples sampleRate = map Fin samples"
    if z: "\<forall>x \<in> set samples. x = 0"
  proof -
    have n: "normalizeAudio samples = samples" by (rule normalizeAudio_zero[OF z])
    have "highPassFilter samples 80 sampleRate = map Fin samples"
    proof (cases samples)
      case Nil thus ?thesis by (simp add: highPassFilter_def)
    next
      case (Cons x0 rest)
      hence "x0 = 0" "\<forall>s \<in> set rest. s = 0" using z by simp_all
      thus ?thesis using hpLoop_zero[of rest a] by (simp add: highPassFilter_def Cons a)
    qed
    thus ?thesis using n by (simp add: conditionSamples_def)
  qed
  show ?thesis using nb c2 c3 by blast
qed

text \<open>
Claim C5, amended, at a two-sample buffer and at an all-zero buffer.
\<close>

theorem conditioned_amplitude_bound_witness:
  "\<bar>normalizeAudio [0.5, -0.25] ! 1\<bar> \<le> 1
    \<and> (\<exists>r. conditionSamples [0.5, -0.25] 44100 ! 1 = Fin r \<and> \<bar>r\<bar> < 2)
    \<and> normalizeAudio [0, 0] = [0, 0] \<and> conditionSamples [0, 0] 44100 = [Fin 0, Fin 0]"
proof -
  have m: "maxAmplitudeOf [0.5, -0.25] = 0.5" by (simp add: maxAmplitudeOf_def)
  have n: "normalizeAudio [0.5, -0.25] = [1, -0.5]"
    unfolding normalizeAudio_def m Let_def by simp
  have a: "normalizeAudio [0.5, -0.25] ! 1 \<in> set (normalizeAudio [0.5, -0.25])"
    unfolding n by simp
  have b: "conditionSamples [0.5, -0.25] 44100 ! 1 \<in> set (conditionSamples [0.5, -0.25] 44100)"
    unfolding conditionSamples_def n highPassFilter_def by (simp add: Let_def)
  show ?thesis
    using conditioned_amplitude_bound[of 44100 "[0.5, -0.25]"]
      conditioned_amplitude_bound[of 44100 "[0, 0]"] a b
    by simp
qed

section \<open>Properties of the feature extractor\<close>

lemma band_bins_subBass:
  "jfloor (freqToBin 20 (44100 / 2) 512) = Fin 0 \<and> jceil (freqToBin 60 (44100 / 2) 512) = Fin 2"
proof -
  have "\<lfloor>(20 / (44100 / 2) * 512 :: real)\<rfloor> = 0" by (simp add: floor_eq_iff)
  moreover have "\<lceil>(60 / (44100 / 2) * 512 :: real)\<rceil> = 2" by (simp add: ceiling_eq_iff)
  ultimately show ?thesis by (simp add: freqToBin_def)
qed

text \<open>
  Claim C4, evaluated. The sub-bass band (20 to 60 Hz) of a 512-bin spectrum at 44100 Hz
  maps to the bins 0 and 1. With every magnitude equal to 1 the root of the mean of the
  squares over these two bins is 1, and \<^verbatim>\<open>getBandEnergy\<close> returns \<open>sqrt (2 / 3)\<close>: the
  sum of the squares of two bins is divided by three.
\<close>

theorem band_energy_not_rms:
  "getBandEnergy (replicate 512 1) 20 60 44100 = Some (Fin (sqrt (2 / 3)))
   \<and> rms (take 2 (replicate 512 1)) = 1
   \<and> sqrt (2 / 3) \<noteq> (1::real)"
proof -
  have idx: "loopIndices (Fin 0) (Fin 2) = Some [0, 1]"
    by (simp add: loopIndices_def upto_rec1)
  have a0: "arr (replicate 512 1) 0 = Fin 1" and a1: "arr (replicate 512 1) 1 = Fin 1"
    by (simp_all add: arr_def)
  have g: "getBandEnergy (replicate 512 1) 20 60 44100 = Some (Fin (sqrt (2 / 3)))"
    using band_bins_subBass
    by (simp add: getBandEnergy_def Let_def jge_def idx a0 a1 jsub_def)
  have t: "take 2 (replicate 512 (1::real)) = [1, 1]"
    by (simp add: take_Suc_conv_app_nth numeral_2_eq_2)
  have r: "rms (take 2 (replicate 512 1)) = 1" unfolding t by (simp add: rms_def)
  have "sqrt (2 / 3) \<noteq> (1::real)"
  proof
    assume "sqrt (2 / 3) = (1::real)"
    hence "sqrt (2 / 3) ^ 2 = (1::real) ^ 2" by simp
    thus False by simp
  qed
  thus ?thesis using g r by simp
qed

lemma freqToBin_Fin: "nyquist \<noteq> 0 \<Longrightarrow> freqToBin freq nyquist len = Fin (freq / nyquist * real len)"
  by (simp add: freqToBin_def)

lemma band_fold_value:
  "\<forall>i \<in> set idx. 0 \<le> i \<and> i < int (length spectrum) \<Longrightarrow>
   fold (\<lambda>i energy. jadd energy (jmul (arr spectrum i) (arr spectrum i))) idx (Fin a)
     = Fin (a + sum_list (map (\<lambda>i. spectrum ! nat i * spectrum ! nat i) idx))"
proof (induction idx arbitrary: a)
  case Nil show ?case by simp
next
  case (Cons i idx)
  have i: "arr spectrum i = Fin (spectrum ! nat i)" using Cons.prems by (simp add: arr_def)
  have rest: "\<forall>i \<in> set idx. 0 \<le> i \<and> i < int (length spectrum)" using Cons.prems by simp
  show ?case using Cons.IH[OF rest, of "a + spectrum ! nat i * spectrum ! nat i"]
    by (simp add: i algebra_simps)
qed

lemma sum_sq_nonneg: "0 \<le> sum_list (map (\<lambda>x. x * x) (xs::real list))"
  by (induction xs) simp_all

text \<open>
  What \<^verbatim>\<open>getBandEnergy\<close> computes for a positive sample rate: 0 on an empty span of bins,
  and otherwise the root of the sum of the squares divided by the number of bins plus one.
\<close>

lemma bandEnergy_value:
  assumes "0 < sampleRate"
  shows "getBandEnergy spectrum lowFreq highFreq sampleRate =
     (let s = max 0 \<lfloor>lowFreq / (sampleRate / 2) * real (length spectrum)\<rfloor>;
          e = min \<lceil>highFreq / (sampleRate / 2) * real (length spectrum)\<rceil> (int (length spectrum));
          bins = bandSlice spectrum s e
      in Some (Fin (if e \<le> s then 0
                    else sqrt (sum_list (map (\<lambda>x. x * x) bins) / (real (length bins) + 1)))))"
proof -
  let ?len = "length spectrum"
  let ?nyq = "sampleRate / 2"
  have nz: "?nyq \<noteq> 0" using assms by simp
  define l where "l = \<lfloor>lowFreq / ?nyq * real ?len\<rfloor>"
  define h where "h = \<lceil>highFreq / ?nyq * real ?len\<rceil>"
  define s where "s = max 0 l"
  define e where "e = min h (int ?len)"
  let ?bins = "bandSlice spectrum s e"
  have lowBin: "jfloor (freqToBin lowFreq ?nyq ?len) = Fin (real_of_int l)"
    by (simp add: freqToBin_Fin[OF nz] l_def)
  have highBin: "jceil (freqToBin highFreq ?nyq ?len) = Fin (real_of_int h)"
    by (simp add: freqToBin_Fin[OF nz] h_def)
  have startBin: "jmax (Fin 0) (Fin (real_of_int l)) = Fin (real_of_int s)"
    by (simp add: s_def max_def)
  have endBin: "jmin (Fin (real_of_int h)) (Fin (real ?len)) = Fin (real_of_int e)"
    by (simp add: e_def min_def)
  have unf: "getBandEnergy spectrum lowFreq highFreq sampleRate =
      (if jge (Fin (real_of_int s)) (Fin (real_of_int e)) then Some (Fin 0)
        else (case loopIndices (Fin (real_of_int s)) (Fin (real_of_int e)) of
                None \<Rightarrow> None
              | Some idx \<Rightarrow>
                  Some (jsqrt (jdiv (fold (\<lambda>i energy. jadd energy (jmul (arr spectrum i) (arr spectrum i)))
                                  idx (Fin 0))
                           (jadd (jsub (Fin (real_of_int e)) (Fin (real_of_int s))) (Fin 1))))))"
    unfolding getBandEnergy_def Let_def lowBin highBin startBin endBin by (rule refl)
  have res: "getBandEnergy spectrum lowFreq highFreq sampleRate =
      Some (Fin (if e \<le> s then 0
                 else sqrt (sum_list (map (\<lambda>x. x * x) ?bins) / (real (length ?bins) + 1))))"
  proof (cases "e \<le> s")
    case True
    thus ?thesis unfolding unf by (simp add: jge_def)
  next
    case False
    hence lt: "s < e" by simp
    have idx: "loopIndices (Fin (real_of_int s)) (Fin (real_of_int e)) = Some [s .. e - 1]"
      using lt by (simp add: loopIndices_def)
    have range: "\<forall>i \<in> set [s .. e - 1]. 0 \<le> i \<and> i < int ?len"
      by (auto simp: s_def e_def)
    have f: "fold (\<lambda>i energy. jadd energy (jmul (arr spectrum i) (arr spectrum i))) [s .. e - 1] (Fin 0)
        = Fin (sum_list (map (\<lambda>x. x * x) ?bins))"
      unfolding band_fold_value[OF range] by (simp add: bandSlice_def comp_def)
    have len: "real (length ?bins) + 1 = real_of_int e - real_of_int s + 1"
      using lt by (simp add: bandSlice_def)
    have d: "real_of_int e - real_of_int s + 1 \<noteq> 0" using lt by simp
    have "0 \<le> sum_list (map (\<lambda>x. x * x) ?bins) / (real_of_int e - real_of_int s + 1)"
      using sum_sq_nonneg[of ?bins] lt by simp
    hence nn: "\<not> sum_list (map (\<lambda>x. x * x) ?bins) / (real_of_int e - real_of_int s + 1) < 0"
      by (simp add: not_less)
    have "jsqrt (jdiv (Fin (sum_list (map (\<lambda>x. x * x) ?bins)))
             (jadd (jsub (Fin (real_of_int e)) (Fin (real_of_int s))) (Fin 1)))
        = Fin (sqrt (sum_list (map (\<lambda>x. x * x) ?bins) / (real (length ?bins) + 1)))"
      unfolding len using d nn by (simp add: jsub_def)
    thus ?thesis unfolding unf using lt by (simp add: jge_def idx f)
  qed
  show ?thesis unfolding Let_def res s_def e_def l_def h_def by (rule refl)
qed

text \<open>
  Hence on every non-empty span with a non-zero magnitude the result is strictly below the
  root of the mean of the squares.
\<close>

lemma band_energy_below_rms:
  assumes "0 < sampleRate"
    and "s = max 0 \<lfloor>lowFreq / (sampleRate / 2) * real (length spectrum)\<rfloor>"
    and "e = min \<lceil>highFreq / (sampleRate / 2) * real (length spectrum)\<rceil> (int (length spectrum))"
    and "s < e"
    and "0 < sum_list (map (\<lambda>x. x * x) (bandSlice spectrum s e))"
  shows "\<exists>v. getBandEnergy spectrum lowFreq highFreq sampleRate = Some (Fin v)
           \<and> v < rms (bandSlice spectrum s e)"
proof -
  let ?bins = "bandSlice spectrum s e"
  let ?sq = "sum_list (map (\<lambda>x. x * x) ?bins)"
  have v: "getBandEnergy spectrum lowFreq highFreq sampleRate =
     Some (Fin (sqrt (?sq / (real (length ?bins) + 1))))"
    unfolding bandEnergy_value[OF assms(1)] Let_def assms(2)[symmetric] assms(3)[symmetric]
    using assms(4) by simp
  have n: "0 < real (length ?bins)" using assms(4) by (simp add: bandSlice_def)
  have "?sq / (real (length ?bins) + 1) < ?sq / real (length ?bins)"
    using n assms(5) by (simp add: field_simps)
  hence "sqrt (?sq / (real (length ?bins) + 1)) < rms ?bins"
    by (simp add: rms_def)
  thus ?thesis using v by simp
qed

text \<open>
The maximum lies between \<open>2 ^ 1023\<close> and \<open>2 ^ 1024\<close>; a result within the range is kept.
\<close>

lemma MAX_VALUE_ge: "2 ^ 1023 \<le> MAX_VALUE"
proof -
  have "(1::real) \<le> 2 - 1 / 2 ^ 52" by simp
  hence "1 * (2::real) ^ 1023 \<le> (2 - 1 / 2 ^ 52) * 2 ^ 1023"
    by (rule mult_right_mono) simp
  thus ?thesis by (simp only: MAX_VALUE_def mult_1)
qed

lemma MAX_VALUE_lt: "MAX_VALUE < 2 ^ 1024"
proof -
  have "(2 - 1 / 2 ^ 52) * (2::real) ^ 1023 < 2 * 2 ^ 1023"
    by (rule mult_strict_right_mono) simp_all
  thus ?thesis by (simp only: MAX_VALUE_def power_Suc[symmetric]) simp
qed

lemma ovf_Fin: "\<bar>x\<bar> \<le> MAX_VALUE \<Longrightarrow> ovf x = Fin x"
  by (auto simp: ovf_def)

lemma ovf_PInf: "MAX_VALUE < x \<Longrightarrow> ovf x = PInf"
  by (simp add: ovf_def)

lemma MAX_VALUE_ge_one: "1 \<le> MAX_VALUE"
proof -
  have "(1::real) \<le> 2 ^ 1023" by (rule one_le_power) simp
  thus ?thesis using MAX_VALUE_ge by linarith
qed

lemma MAX_VALUE_lt_e320: "MAX_VALUE < 10 ^ 320"
proof -
  have "(2::real) ^ 1024 < 10 ^ 320" by simp
  thus ?thesis using MAX_VALUE_lt by linarith
qed

text \<open>
The range-checked operations on operands whose exact result is within the range.
\<close>

lemma cap: "\<bar>x\<bar> \<le> 2 ^ 1000 \<Longrightarrow> \<bar>x\<bar> \<le> MAX_VALUE"
proof -
  assume a: "\<bar>x\<bar> \<le> 2 ^ 1000"
  have "(2::real) ^ 1000 \<le> 2 ^ 1023" by (rule power_increasing) simp_all
  thus ?thesis using a MAX_VALUE_ge by linarith
qed

lemma oadd_Fin: "\<bar>a + b\<bar> \<le> MAX_VALUE \<Longrightarrow> oadd (Fin a) (Fin b) = Fin (a + b)"
  by (simp add: oadd_def ovf_Fin)

lemma osub_Fin: "\<bar>a - b\<bar> \<le> MAX_VALUE \<Longrightarrow> osub (Fin a) (Fin b) = Fin (a - b)"
  by (simp add: osub_def jsub_def ovf_Fin)

lemma omul_Fin: "\<bar>a * b\<bar> \<le> MAX_VALUE \<Longrightarrow> omul (Fin a) (Fin b) = Fin (a * b)"
  by (simp add: omul_def ovf_Fin)

lemma odiv_Fin: "b \<noteq> 0 \<Longrightarrow> \<bar>a / b\<bar> \<le> MAX_VALUE \<Longrightarrow> odiv (Fin a) (Fin b) = Fin (a / b)"
  by (simp add: odiv_def ovf_Fin)

lemma oexp_Fin: "exp a \<le> MAX_VALUE \<Longrightarrow> oexp (Fin a) = Fin (exp a)"
  by (simp add: oexp_def ovf_Fin)

text \<open>
Single-precision values are at most \<open>2 ^ 128\<close> in absolute value.
\<close>

lemma F32_MAX_le: "F32_MAX \<le> 2 ^ 128"
  by (simp add: F32_MAX_def)

lemma F32_MIN_pos: "0 < F32_MIN"
  by (simp add: F32_MIN_def)

lemma float32_abs: "float32 x \<Longrightarrow> \<bar>x\<bar> \<le> 2 ^ 128"
  using F32_MAX_le by (auto simp: float32_def)

lemma float32_pos: "float32 x \<Longrightarrow> 0 < x \<Longrightarrow> F32_MIN \<le> x \<and> x \<le> 2 ^ 128"
  using F32_MAX_le by (auto simp: float32_def)

lemma div_le_self_real: "0 \<le> r \<Longrightarrow> 1 \<le> n \<Longrightarrow> r / n \<le> (r::real)"
proof -
  assume r: "0 \<le> r" and n: "1 \<le> n"
  have "r / n \<le> r / 1" by (rule divide_left_mono) (use r n in simp_all)
  thus ?thesis by simp
qed

lemma one_le_length: "xs \<noteq> [] \<Longrightarrow> 1 \<le> real (length xs)"
  by (cases xs) simp_all

text \<open>Sums of bounded non-negative numbers.\<close>

lemma sum_fold_Fin:
  assumes "\<forall>x \<in> set xs. 0 \<le> x \<and> x \<le> B" and "0 \<le> a"
    and "a + real (length xs) * B \<le> MAX_VALUE"
  shows "fold (\<lambda>x s. oadd s (Fin x)) xs (Fin a) = Fin (a + sum_list xs)
     \<and> 0 \<le> sum_list xs \<and> sum_list xs \<le> real (length xs) * B"
  using assms
proof (induction xs arbitrary: a)
  case Nil
  show ?case by simp
next
  case (Cons x xs)
  have x: "0 \<le> x" "x \<le> B" using Cons.prems(1) by simp_all
  hence B: "0 \<le> B" by linarith
  have lB: "0 \<le> real (length xs) * B" using B by simp
  have cap': "a + B + real (length xs) * B \<le> MAX_VALUE"
    using Cons.prems(3) by (simp add: algebra_simps)
  have "\<bar>a + x\<bar> \<le> MAX_VALUE" using x Cons.prems(2) cap' lB by linarith
  hence st: "oadd (Fin a) (Fin x) = Fin (a + x)" by (rule oadd_Fin)
  have rest: "\<forall>x \<in> set xs. 0 \<le> x \<and> x \<le> B" using Cons.prems(1) by simp
  have a': "0 \<le> a + x" using x Cons.prems(2) by simp
  have c': "a + x + real (length xs) * B \<le> MAX_VALUE" using cap' x by linarith
  from Cons.IH[OF rest a' c'] show ?case using x by (simp add: st algebra_simps)
qed

lemma pos_sum_ge:
  assumes "\<forall>x \<in> set xs. x = 0 \<or> m \<le> x" and "0 < m" and "0 < sum_list xs"
  shows "m \<le> sum_list (xs::real list)"
  using assms
proof (induction xs)
  case Nil
  thus ?case by simp
next
  case (Cons x xs)
  have nn: "\<forall>y \<in> set xs. 0 \<le> y" using Cons.prems(1,2) by auto
  hence s0: "0 \<le> sum_list xs" by (simp add: sum_list_nonneg)
  show ?case
  proof (cases "x = 0")
    case True
    hence "0 < sum_list xs" using Cons.prems(3) by simp
    moreover have "\<forall>x \<in> set xs. x = 0 \<or> m \<le> x" using Cons.prems(1) by simp
    ultimately have "m \<le> sum_list xs" using Cons.IH Cons.prems(2) by blast
    thus ?thesis using True by simp
  next
    case False
    hence "m \<le> x" using Cons.prems(1) by simp
    thus ?thesis using s0 by simp
  qed
qed

text \<open>Energy.\<close>

lemma energy_fold:
  assumes "\<forall>x \<in> set xs. \<bar>x\<bar> \<le> B" and "0 \<le> B" and "0 \<le> a"
    and "a + real (length xs) * (B * B) \<le> MAX_VALUE"
  shows "\<exists>r. fold (\<lambda>x sum. oadd sum (omul (Fin x) (Fin x))) xs (Fin a) = Fin r
     \<and> a \<le> r \<and> r \<le> a + real (length xs) * (B * B)"
  using assms
proof (induction xs arbitrary: a)
  case Nil
  show ?case by simp
next
  case (Cons x xs)
  have x: "\<bar>x\<bar> \<le> B" using Cons.prems(1) by simp
  have "\<bar>x\<bar> * \<bar>x\<bar> \<le> B * B" using x by (intro mult_mono) simp_all
  hence sq: "0 \<le> x * x" "x * x \<le> B * B" by simp_all
  have lB: "0 \<le> real (length xs) * (B * B)" using Cons.prems(2) by simp
  have cap': "a + B * B + real (length xs) * (B * B) \<le> MAX_VALUE"
    using Cons.prems(4) by (simp add: algebra_simps)
  have "\<bar>x * x\<bar> \<le> MAX_VALUE" using sq cap' lB Cons.prems(3) by linarith
  hence m: "omul (Fin x) (Fin x) = Fin (x * x)" by (rule omul_Fin)
  have "\<bar>a + x * x\<bar> \<le> MAX_VALUE" using sq cap' lB Cons.prems(3) by linarith
  hence st: "oadd (Fin a) (Fin (x * x)) = Fin (a + x * x)" by (rule oadd_Fin)
  have rest: "\<forall>x \<in> set xs. \<bar>x\<bar> \<le> B" using Cons.prems(1) by simp
  have a': "0 \<le> a + x * x" using sq Cons.prems(3) by simp
  have c': "a + x * x + real (length xs) * (B * B) \<le> MAX_VALUE" using cap' sq by linarith
  from Cons.IH[OF rest Cons.prems(2) a' c'] obtain r where
    r: "fold (\<lambda>x sum. oadd sum (omul (Fin x) (Fin x))) xs (Fin (a + x * x)) = Fin r"
       "a + x * x \<le> r" "r \<le> a + x * x + real (length xs) * (B * B)" by blast
  have "a \<le> r" using r(2) sq by linarith
  moreover have "r \<le> a + real (length (x # xs)) * (B * B)"
    using r(3) sq by (simp add: algebra_simps)
  ultimately show ?case using r(1) by (simp add: m st)
qed

lemma energy_bounded:
  assumes "\<forall>x \<in> set samples. \<bar>x\<bar> \<le> B" and "0 \<le> B" and "samples \<noteq> []"
    and "real (length samples) * (B * B) \<le> MAX_VALUE"
  shows "isFinite (calculateEnergy samples)"
proof -
  let ?n = "real (length samples)"
  have n: "0 < ?n" using assms(3) by simp
  from energy_fold[OF assms(1,2), of 0] assms(4) obtain r where
    r: "fold (\<lambda>x sum. oadd sum (omul (Fin x) (Fin x))) samples (Fin 0) = Fin r"
       "0 \<le> r" "r \<le> ?n * (B * B)" by auto
  have q0: "0 \<le> r / ?n" using r(2) n by simp
  have "r / ?n \<le> ?n * (B * B)"
  proof -
    have "r / ?n \<le> r" by (rule div_le_self_real[OF r(2) one_le_length[OF assms(3)]])
    thus ?thesis using r(3) by linarith
  qed
  hence "\<bar>r / ?n\<bar> \<le> MAX_VALUE" using q0 assms(4) by linarith
  hence d: "odiv (Fin r) (Fin ?n) = Fin (r / ?n)" using n by (intro odiv_Fin) simp_all
  show ?thesis unfolding calculateEnergy_def Let_def r(1) d using q0 by (simp add: not_less)
qed

text \<open>Zero-crossing rate.\<close>

lemma crossingsFrom_le: "crossingsFrom prev xs \<le> length xs"
  by (induction xs arbitrary: prev) (simp_all add: le_SucI)

lemma zcr_bounded: "samples \<noteq> [] \<Longrightarrow> isFinite (calculateZeroCrossingRate samples)"
proof -
  assume ne: "samples \<noteq> []"
  let ?c = "case samples of [] \<Rightarrow> 0 | x0 # rest \<Rightarrow> crossingsFrom x0 rest"
  let ?n = "real (length samples)"
  have n: "0 < ?n" using ne by simp
  have "?c \<le> length samples"
    using crossingsFrom_le by (cases samples) (simp_all add: le_SucI)
  hence "real ?c \<le> ?n" by (simp only: of_nat_le_iff)
  hence "0 \<le> real ?c / ?n \<and> real ?c / ?n \<le> 1" using n by simp
  hence "\<bar>real ?c / ?n\<bar> \<le> MAX_VALUE" using MAX_VALUE_ge_one by linarith
  hence d: "odiv (Fin (real ?c)) (Fin ?n) = Fin (real ?c / ?n)" using n by (intro odiv_Fin) simp_all
  show ?thesis unfolding calculateZeroCrossingRate_def Let_def d by simp
qed

text \<open>
A fraction of a non-negative number, and a product of two bounded numbers.
\<close>

lemma frac_mult_le: "0 \<le> f \<Longrightarrow> f \<le> 1 \<Longrightarrow> 0 \<le> q \<Longrightarrow> 0 \<le> f * q \<and> f * q \<le> (q::real)"
proof -
  assume f: "0 \<le> f" "f \<le> 1" and q: "0 \<le> q"
  have "f * q \<le> 1 * q" by (rule mult_right_mono[OF f(2) q])
  thus ?thesis using f q by simp
qed

lemma prod_le: "0 \<le> u \<Longrightarrow> u \<le> q \<Longrightarrow> 0 \<le> x \<Longrightarrow> x \<le> B
    \<Longrightarrow> 0 \<le> u * x \<and> u * x \<le> q * (B::real)"
proof -
  assume a: "0 \<le> u" "u \<le> q" "0 \<le> x" "x \<le> B"
  have "u * x \<le> q * B" by (rule mult_mono) (use a in simp_all)
  thus ?thesis using a by simp
qed

text \<open>Centroid.\<close>

lemma centroid_fold:
  assumes "\<forall>i \<in> set idx. i < length spectrum" and "\<forall>x \<in> set spectrum. 0 \<le> x \<and> x \<le> B"
    and "0 \<le> q" and "q \<le> MAX_VALUE" and "0 \<le> a"
    and "a + real (length idx) * (q * B) \<le> MAX_VALUE"
  shows "\<exists>r. fold (\<lambda>i weightedSum.
              oadd weightedSum (omul (omul (odiv (Fin (real i)) (Fin (real (length spectrum)))) (Fin q))
                (Fin (spectrum ! i)))) idx (Fin a) = Fin r
     \<and> a \<le> r \<and> r \<le> a + real (length idx) * (q * B)"
  using assms(1,5,6)
proof (induction idx arbitrary: a)
  case Nil
  show ?case by simp
next
  case (Cons i idx)
  let ?n = "real (length spectrum)"
  have i: "i < length spectrum" using Cons.prems(1) by simp
  hence "0 < length spectrum" by linarith
  hence n: "0 < ?n" by (simp only: of_nat_0_less_iff)
  have x: "0 \<le> spectrum ! i" "spectrum ! i \<le> B" using assms(2) i nth_mem by blast+
  hence B: "0 \<le> B" by linarith
  have f: "0 \<le> real i / ?n" "real i / ?n \<le> 1" using i n by simp_all
  have nz: "?n \<noteq> 0" using n by linarith
  have "\<bar>real i / ?n\<bar> \<le> MAX_VALUE" using f MAX_VALUE_ge_one by linarith
  hence d: "odiv (Fin (real i)) (Fin ?n) = Fin (real i / ?n)" by (rule odiv_Fin[OF nz])
  have fq: "0 \<le> real i / ?n * q" "real i / ?n * q \<le> q"
    using frac_mult_le[OF f assms(3)] by blast+
  have "\<bar>real i / ?n * q\<bar> \<le> MAX_VALUE" using fq assms(4) by linarith
  hence m1: "omul (Fin (real i / ?n)) (Fin q) = Fin (real i / ?n * q)" by (rule omul_Fin)
  have t: "0 \<le> real i / ?n * q * (spectrum ! i)" "real i / ?n * q * (spectrum ! i) \<le> q * B"
    using prod_le[OF fq x] by blast+
  have lB: "0 \<le> real (length idx) * (q * B)" using B assms(3) by simp
  have cap': "a + q * B + real (length idx) * (q * B) \<le> MAX_VALUE"
    using Cons.prems(3) by (simp add: algebra_simps)
  have "\<bar>real i / ?n * q * (spectrum ! i)\<bar> \<le> MAX_VALUE"
    using t cap' lB Cons.prems(2) by linarith
  hence m2: "omul (Fin (real i / ?n * q)) (Fin (spectrum ! i)) = Fin (real i / ?n * q * (spectrum ! i))"
    by (rule omul_Fin)
  have "\<bar>a + real i / ?n * q * (spectrum ! i)\<bar> \<le> MAX_VALUE"
    using t cap' lB Cons.prems(2) by linarith
  hence st: "oadd (Fin a) (Fin (real i / ?n * q * (spectrum ! i)))
      = Fin (a + real i / ?n * q * (spectrum ! i))"
    by (rule oadd_Fin)
  have rest: "\<forall>i \<in> set idx. i < length spectrum" using Cons.prems(1) by simp
  have a': "0 \<le> a + real i / ?n * q * (spectrum ! i)" using t Cons.prems(2) by simp
  have c': "a + real i / ?n * q * (spectrum ! i) + real (length idx) * (q * B) \<le> MAX_VALUE"
    using cap' t by linarith
  from Cons.IH[OF rest a' c'] obtain r where
    r: "fold (\<lambda>i weightedSum.
              oadd weightedSum (omul (omul (odiv (Fin (real i)) (Fin (real (length spectrum)))) (Fin q))
                (Fin (spectrum ! i)))) idx (Fin (a + real i / ?n * q * (spectrum ! i))) = Fin r"
       "a + real i / ?n * q * (spectrum ! i) \<le> r"
       "r \<le> a + real i / ?n * q * (spectrum ! i) + real (length idx) * (q * B)" by blast
  have "a \<le> r" using r(2) t by linarith
  moreover have "r \<le> a + real (length (i # idx)) * (q * B)"
    using r(3) t by (simp add: algebra_simps)
  moreover have "fold (\<lambda>i weightedSum.
              oadd weightedSum (omul (omul (odiv (Fin (real i)) (Fin (real (length spectrum)))) (Fin q))
                (Fin (spectrum ! i)))) (i # idx) (Fin a) = Fin r"
    by (simp only: fold_simps o_apply d m1 m2 st r(1))
  ultimately show ?case by blast
qed

lemma centroid_bounded:
  assumes "\<forall>x \<in> set spectrum. (x = 0 \<or> m \<le> x) \<and> 0 \<le> x \<and> x \<le> B" and "0 < m"
    and "spectrum \<noteq> []" and "0 \<le> sampleRate"
    and "real (length spectrum) * (sampleRate / 2 * B) / m \<le> MAX_VALUE"
    and "real (length spectrum) * (sampleRate / 2 * B) \<le> MAX_VALUE"
    and "real (length spectrum) * B \<le> MAX_VALUE"
    and "sampleRate / 2 \<le> MAX_VALUE"
  shows "isFinite (calculateSpectralCentroid spectrum sampleRate)"
proof -
  let ?q = "sampleRate / 2"
  let ?n = "real (length spectrum)"
  have q: "0 \<le> ?q" using assms(4) by simp
  have "\<bar>?q\<bar> \<le> MAX_VALUE" using q assms(8) by linarith
  hence nyq: "odiv (Fin sampleRate) (Fin 2) = Fin ?q" by (intro odiv_Fin) simp_all
  have bnd: "\<forall>x \<in> set spectrum. 0 \<le> x \<and> x \<le> B" using assms(1) by blast
  have idx: "\<forall>i \<in> set [0 ..< length spectrum]. i < length spectrum" by simp
  from centroid_fold[OF idx bnd q assms(8), of 0] assms(6) obtain r where
    r: "fold (\<lambda>i weightedSum.
              oadd weightedSum (omul (omul (odiv (Fin (real i)) (Fin (real (length spectrum)))) (Fin ?q))
                (Fin (spectrum ! i)))) [0 ..< length spectrum] (Fin 0) = Fin r"
       "0 \<le> r" "r \<le> ?n * (?q * B)" by auto
  from sum_fold_Fin[OF bnd, of 0] assms(7) have
    s: "fold (\<lambda>x sum. oadd sum (Fin x)) spectrum (Fin 0) = Fin (sum_list spectrum)" by simp
  show ?thesis
  proof (cases "0 < sum_list spectrum")
    case False
    thus ?thesis unfolding calculateSpectralCentroid_def Let_def nyq r(1) s
      by (simp add: jgt_def)
  next
    case True
    have zm: "\<forall>x \<in> set spectrum. x = 0 \<or> m \<le> x" using assms(1) by blast
    have ge: "m \<le> sum_list spectrum" by (rule pos_sum_ge[OF zm assms(2) True])
    have "r / sum_list spectrum \<le> r / m"
      by (rule divide_left_mono[OF ge r(2)]) (use True assms(2) in simp)
    also have "\<dots> \<le> (?n * (?q * B)) / m"
      by (rule divide_right_mono[OF r(3)]) (use assms(2) in simp)
    finally have "r / sum_list spectrum \<le> MAX_VALUE" using assms(5) by linarith
    moreover have "0 \<le> r / sum_list spectrum" using r(2) True by simp
    ultimately have "\<bar>r / sum_list spectrum\<bar> \<le> MAX_VALUE" by linarith
    moreover have "sum_list spectrum \<noteq> 0" using True by linarith
    ultimately have d: "odiv (Fin r) (Fin (sum_list spectrum)) = Fin (r / sum_list spectrum)"
      by (intro odiv_Fin)
    show ?thesis unfolding calculateSpectralCentroid_def Let_def nyq r(1) s d
      using True by (simp add: jgt_def)
  qed
qed

text \<open>Flux.\<close>

lemma flux_fold:
  assumes "\<forall>i \<in> set idx. i < length s1 \<and> i < length s2"
    and "\<forall>x \<in> set s1. \<bar>x\<bar> \<le> B" and "\<forall>x \<in> set s2. \<bar>x\<bar> \<le> B" and "0 \<le> B"
    and "0 \<le> a" and "a + real (length idx) * (2 * B * (2 * B)) \<le> MAX_VALUE"
  shows "\<exists>r. fold (\<lambda>i flux. oadd flux (omul (osub (Fin (s1 ! i)) (Fin (s2 ! i)))
                                         (osub (Fin (s1 ! i)) (Fin (s2 ! i))))) idx (Fin a) = Fin r
     \<and> a \<le> r \<and> r \<le> a + real (length idx) * (2 * B * (2 * B))"
  using assms(1,5,6)
proof (induction idx arbitrary: a)
  case Nil
  show ?case by simp
next
  case (Cons i idx)
  let ?d = "s1 ! i - s2 ! i"
  have i: "i < length s1" "i < length s2" using Cons.prems(1) by simp_all
  have x1: "\<bar>s1 ! i\<bar> \<le> B" using assms(2) i(1) nth_mem by blast
  have x2: "\<bar>s2 ! i\<bar> \<le> B" using assms(3) i(2) nth_mem by blast
  have dB: "\<bar>?d\<bar> \<le> 2 * B" using x1 x2 by linarith
  have "\<bar>?d\<bar> * \<bar>?d\<bar> \<le> 2 * B * (2 * B)" using dB by (intro mult_mono) simp_all
  hence sq: "0 \<le> ?d * ?d" "?d * ?d \<le> 2 * B * (2 * B)" by simp_all
  have lB: "0 \<le> real (length idx) * (2 * B * (2 * B))" using assms(4) by simp
  have cap': "a + 2 * B * (2 * B) + real (length idx) * (2 * B * (2 * B)) \<le> MAX_VALUE"
    using Cons.prems(3) by (simp add: algebra_simps)
  have "2 * B \<le> MAX_VALUE"
  proof (cases "1 \<le> 2 * B")
    case True
    hence "2 * B * 1 \<le> 2 * B * (2 * B)" using assms(4) by (intro mult_left_mono) simp_all
    thus ?thesis using cap' lB Cons.prems(2) by linarith
  next
    case False
    thus ?thesis using MAX_VALUE_ge_one by linarith
  qed
  hence "\<bar>?d\<bar> \<le> MAX_VALUE" using dB by linarith
  hence sb: "osub (Fin (s1 ! i)) (Fin (s2 ! i)) = Fin ?d" by (rule osub_Fin)
  have "\<bar>?d * ?d\<bar> \<le> MAX_VALUE" using sq cap' lB Cons.prems(2) by linarith
  hence m: "omul (Fin ?d) (Fin ?d) = Fin (?d * ?d)" by (rule omul_Fin)
  have "\<bar>a + ?d * ?d\<bar> \<le> MAX_VALUE" using sq cap' lB Cons.prems(2) by linarith
  hence st: "oadd (Fin a) (Fin (?d * ?d)) = Fin (a + ?d * ?d)" by (rule oadd_Fin)
  have rest: "\<forall>i \<in> set idx. i < length s1 \<and> i < length s2" using Cons.prems(1) by simp
  have a': "0 \<le> a + ?d * ?d" using sq Cons.prems(2) by simp
  have c': "a + ?d * ?d + real (length idx) * (2 * B * (2 * B)) \<le> MAX_VALUE"
    using cap' sq by linarith
  from Cons.IH[OF rest a' c'] obtain r where
    r: "fold (\<lambda>i flux. oadd flux (omul (osub (Fin (s1 ! i)) (Fin (s2 ! i)))
                                         (osub (Fin (s1 ! i)) (Fin (s2 ! i))))) idx
          (Fin (a + ?d * ?d)) = Fin r" "a + ?d * ?d \<le> r"
       "r \<le> a + ?d * ?d + real (length idx) * (2 * B * (2 * B))" by blast
  have "a \<le> r" using r(2) sq by linarith
  moreover have "r \<le> a + real (length (i # idx)) * (2 * B * (2 * B))"
    using r(3) sq by (simp add: algebra_simps)
  moreover have "fold (\<lambda>i flux. oadd flux (omul (osub (Fin (s1 ! i)) (Fin (s2 ! i)))
                                         (osub (Fin (s1 ! i)) (Fin (s2 ! i))))) (i # idx) (Fin a) = Fin r"
    by (simp only: fold_simps o_apply sb m st r(1))
  ultimately show ?case by blast
qed

lemma flux_bounded:
  assumes "\<forall>x \<in> set spectrum1. \<bar>x\<bar> \<le> B" and "\<forall>x \<in> set spectrum2. \<bar>x\<bar> \<le> B" and "0 \<le> B"
    and "spectrum1 \<noteq> []" and "spectrum2 \<noteq> []"
    and "real (min (length spectrum1) (length spectrum2)) * (2 * B * (2 * B)) \<le> MAX_VALUE"
  shows "isFinite (calculateSpectralFluxBetween spectrum1 spectrum2)"
proof -
  let ?len = "min (length spectrum1) (length spectrum2)"
  let ?n = "real ?len"
  have "0 < ?len" using assms(4,5) by simp
  hence n1: "1 \<le> ?n" by linarith
  hence nz: "?n \<noteq> 0" by linarith
  have idx: "\<forall>i \<in> set [0 ..< ?len]. i < length spectrum1 \<and> i < length spectrum2" by simp
  have l: "real (length [0 ..< ?len]) = ?n" by simp
  from flux_fold[OF idx assms(1,2,3), of 0] assms(6) obtain r where
    r: "fold (\<lambda>i flux. oadd flux (omul (osub (Fin (spectrum1 ! i)) (Fin (spectrum2 ! i)))
                                         (osub (Fin (spectrum1 ! i)) (Fin (spectrum2 ! i)))))
          [0 ..< ?len] (Fin 0) = Fin r"
       "0 \<le> r" "r \<le> ?n * (2 * B * (2 * B))" unfolding l by auto
  have "r / ?n \<le> r" by (rule div_le_self_real[OF r(2) n1])
  moreover have q0: "0 \<le> r / ?n" using r(2) n1 by simp
  ultimately have "\<bar>r / ?n\<bar> \<le> MAX_VALUE" using r(3) assms(6) by linarith
  hence d: "odiv (Fin r) (Fin ?n) = Fin (r / ?n)" by (rule odiv_Fin[OF nz])
  show ?thesis unfolding calculateSpectralFluxBetween_def Let_def r(1) d
    using q0 by (simp add: not_less)
qed

text \<open>Rolloff.\<close>

lemma rolloffLoop_bounded:
  assumes "len \<noteq> 0" and "0 \<le> q" and "q \<le> MAX_VALUE"
  shows "i + length xs \<le> len \<Longrightarrow> \<forall>x \<in> set xs. 0 \<le> x \<and> x \<le> B \<Longrightarrow> 0 \<le> c
     \<Longrightarrow> c + real (length xs) * B \<le> MAX_VALUE
     \<Longrightarrow> isFinite (rolloffLoop (Fin th) (Fin q) len i (Fin c) xs)"
proof (induction xs arbitrary: i c)
  case Nil
  show ?case by simp
next
  case (Cons x xs)
  let ?n = "real len"
  have x: "0 \<le> x" "x \<le> B" using Cons.prems(2) by simp_all
  hence B: "0 \<le> B" by linarith
  have lB: "0 \<le> real (length xs) * B" using B by simp
  have cap': "c + B + real (length xs) * B \<le> MAX_VALUE"
    using Cons.prems(4) by (simp add: algebra_simps)
  have "\<bar>c + x\<bar> \<le> MAX_VALUE" using x Cons.prems(3) cap' lB by linarith
  hence st: "oadd (Fin c) (Fin x) = Fin (c + x)" by (rule oadd_Fin)
  have "0 < len" using assms(1) by simp
  hence n: "0 < ?n" by (simp only: of_nat_0_less_iff)
  hence nz: "?n \<noteq> 0" by linarith
  have "i \<le> len" using Cons.prems(1) by simp
  hence "real i \<le> ?n" by (simp only: of_nat_le_iff)
  hence f: "0 \<le> real i / ?n" "real i / ?n \<le> 1" using n by simp_all
  have "\<bar>real i / ?n\<bar> \<le> MAX_VALUE" using f MAX_VALUE_ge_one by linarith
  hence d: "odiv (Fin (real i)) (Fin ?n) = Fin (real i / ?n)" by (rule odiv_Fin[OF nz])
  have "\<bar>real i / ?n * q\<bar> \<le> MAX_VALUE" using frac_mult_le[OF f assms(2)] assms(3) by linarith
  hence m: "omul (Fin (real i / ?n)) (Fin q) = Fin (real i / ?n * q)" by (rule omul_Fin)
  have i': "Suc i + length xs \<le> len" using Cons.prems(1) by simp
  have rest: "\<forall>x \<in> set xs. 0 \<le> x \<and> x \<le> B" using Cons.prems(2) by simp
  have a': "0 \<le> c + x" using x Cons.prems(3) by simp
  have c': "c + x + real (length xs) * B \<le> MAX_VALUE" using cap' x by linarith
  have IH: "isFinite (rolloffLoop (Fin th) (Fin q) len (Suc i) (Fin (c + x)) xs)"
    by (rule Cons.IH[OF i' rest a' c'])
  have "rolloffLoop (Fin th) (Fin q) len i (Fin c) (x # xs) =
      (if jge (Fin (c + x)) (Fin th) then Fin (real i / ?n * q)
       else rolloffLoop (Fin th) (Fin q) len (Suc i) (Fin (c + x)) xs)"
    by (simp only: rolloffLoop.simps Let_def st d m)
  thus ?case using IH by simp
qed

lemma rolloff_bounded:
  assumes "\<forall>x \<in> set spectrum. 0 \<le> x \<and> x \<le> B" and "spectrum \<noteq> []" and "0 \<le> sampleRate"
    and "sampleRate / 2 \<le> MAX_VALUE" and "real (length spectrum) * B \<le> MAX_VALUE"
  shows "isFinite (calculateSpectralRolloff spectrum sampleRate)"
proof -
  let ?q = "sampleRate / 2"
  have q: "0 \<le> ?q" using assms(3) by simp
  have "\<bar>?q\<bar> \<le> MAX_VALUE" using q assms(4) by linarith
  hence nyq: "odiv (Fin sampleRate) (Fin 2) = Fin ?q" by (intro odiv_Fin) simp_all
  from sum_fold_Fin[OF assms(1), of 0] assms(5) have
    s: "fold (\<lambda>val sum. oadd sum (Fin val)) spectrum (Fin 0) = Fin (sum_list spectrum)"
    and s0: "0 \<le> sum_list spectrum" and sB: "sum_list spectrum \<le> real (length spectrum) * B"
    by simp_all
  have t: "0 \<le> 0.85 * sum_list spectrum" "0.85 * sum_list spectrum \<le> sum_list spectrum"
    using s0 by simp_all
  have "\<bar>0.85 * sum_list spectrum\<bar> \<le> MAX_VALUE" using t sB assms(5) by linarith
  hence th: "omul (Fin 0.85) (Fin (sum_list spectrum)) = Fin (0.85 * sum_list spectrum)"
    by (rule omul_Fin)
  have len: "length spectrum \<noteq> 0" using assms(2) by simp
  have "isFinite (rolloffLoop (Fin (0.85 * sum_list spectrum)) (Fin ?q) (length spectrum) 0 (Fin 0) spectrum)"
    by (rule rolloffLoop_bounded[OF len q assms(4)]) (use assms(1,5) in simp_all)
  thus ?thesis unfolding calculateSpectralRolloff_def Let_def nyq s th .
qed

text \<open>Contrast.\<close>

lemma contrast_bounded:
  assumes "\<forall>x \<in> set spectrum. (x = 0 \<or> m \<le> x) \<and> 0 \<le> x \<and> x \<le> B" and "0 < m"
    and "10 \<le> length spectrum"
    and "real (length spectrum) * B \<le> MAX_VALUE"
    and "real (length spectrum) * B * real (length spectrum) / m \<le> MAX_VALUE"
  shows "isFinite (calculateSpectralContrast spectrum)"
proof -
  define len where "len = real (length spectrum)"
  define k where "k = nat \<lfloor>real (length spectrum) * 0.1\<rfloor>"
  define top where "top = take k (rev (sort spectrum))"
  define bot where "bot = sliceLast k (rev (sort spectrum))"
  have "1 \<le> \<lfloor>real (length spectrum) * 0.1\<rfloor>" unfolding le_floor_iff using assms(3) by simp
  hence k0: "0 < k" unfolding k_def by linarith
  hence k1: "1 \<le> real k" by linarith
  hence kz: "real k \<noteq> 0" by linarith
  have "\<lfloor>real (length spectrum) * 0.1\<rfloor> \<le> \<lfloor>real (length spectrum)\<rfloor>" by (rule floor_mono) simp
  hence "k \<le> length spectrum" unfolding k_def by simp
  hence kl: "real k \<le> len" unfolding len_def by (simp only: of_nat_le_iff)
  have lpos: "0 < len" using k1 kl by linarith
  have B: "0 \<le> B" using assms(1,3) by (cases spectrum) auto
  have set_top: "set top \<subseteq> set spectrum"
    unfolding top_def using set_take_subset[of k "rev (sort spectrum)"] by simp
  have set_bot: "set bot \<subseteq> set spectrum"
    unfolding bot_def
    using set_drop_subset[of "length (rev (sort spectrum)) - k" "rev (sort spectrum)"]
    by (simp add: sliceLast_def)
  have len_top: "real (length top) \<le> len" unfolding top_def len_def by simp
  have len_bot: "real (length bot) \<le> len" unfolding bot_def len_def by (simp add: sliceLast_def)
  have cap4: "len * B \<le> MAX_VALUE" using assms(4) unfolding len_def .
  have cap5: "len * B * len / m \<le> MAX_VALUE" using assms(5) unfolding len_def .
  have bt: "\<forall>x \<in> set top. 0 \<le> x \<and> x \<le> B" using assms(1) set_top by blast
  have bb: "\<forall>x \<in> set bot. 0 \<le> x \<and> x \<le> B" using assms(1) set_bot by blast
  have ct: "0 + real (length top) * B \<le> MAX_VALUE"
    using mult_right_mono[OF len_top B] cap4 by linarith
  have cb: "0 + real (length bot) * B \<le> MAX_VALUE"
    using mult_right_mono[OF len_bot B] cap4 by linarith
  from sum_fold_Fin[OF bt _ ct] have
    p: "fold (\<lambda>b a. oadd a (Fin b)) top (Fin 0) = Fin (sum_list top)"
    and p0: "0 \<le> sum_list top" and pB: "sum_list top \<le> real (length top) * B" by simp_all
  from sum_fold_Fin[OF bb _ cb] have
    v: "fold (\<lambda>b a. oadd a (Fin b)) bot (Fin 0) = Fin (sum_list bot)"
    and v0: "0 \<le> sum_list bot" and vB: "sum_list bot \<le> real (length bot) * B" by simp_all
  have pL: "sum_list top \<le> len * B" using pB mult_right_mono[OF len_top B] by linarith
  have vL: "sum_list bot \<le> len * B" using vB mult_right_mono[OF len_bot B] by linarith
  define pm where "pm = sum_list top / real k"
  define vm where "vm = sum_list bot / real k"
  have pm: "0 \<le> pm" "pm \<le> len * B"
    unfolding pm_def using p0 k1 div_le_self_real[OF p0 k1] pL by simp_all
  have vm: "0 \<le> vm" "vm \<le> len * B"
    unfolding vm_def using v0 k1 div_le_self_real[OF v0 k1] vL by simp_all
  have "\<bar>sum_list top / real k\<bar> \<le> MAX_VALUE" using pm cap4 unfolding pm_def by linarith
  hence dp: "odiv (Fin (sum_list top)) (Fin (real k)) = Fin pm"
    unfolding pm_def by (rule odiv_Fin[OF kz])
  have "\<bar>sum_list bot / real k\<bar> \<le> MAX_VALUE" using vm cap4 unfolding vm_def by linarith
  hence dv: "odiv (Fin (sum_list bot)) (Fin (real k)) = Fin vm"
    unfolding vm_def by (rule odiv_Fin[OF kz])
  have unf: "calculateSpectralContrast spectrum =
      (if jgt (Fin vm) (Fin 0) then odiv (Fin pm) (Fin vm) else Fin 0)"
    unfolding calculateSpectralContrast_def Let_def k_def[symmetric] top_def[symmetric]
      bot_def[symmetric] p v dp dv by (rule refl)
  show ?thesis
  proof (cases "0 < vm")
    case False
    thus ?thesis unfolding unf by (simp add: jgt_def)
  next
    case True
    have vpos: "0 < sum_list bot"
    proof (rule ccontr)
      assume "\<not> 0 < sum_list bot"
      hence "sum_list bot = 0" using v0 by linarith
      hence "vm = 0" unfolding vm_def by simp
      thus False using True by linarith
    qed
    have zm: "\<forall>x \<in> set bot. x = 0 \<or> m \<le> x" using assms(1) set_bot by blast
    have ge: "m \<le> sum_list bot" by (rule pos_sum_ge[OF zm assms(2) vpos])
    have lk: "0 < len * real k" using lpos k1 by (intro mult_pos_pos) linarith+
    have m0: "0 \<le> m" using assms(2) by linarith
    have "m / len \<le> m / real k" by (rule divide_left_mono[OF kl m0 lk])
    also have "\<dots> \<le> sum_list bot / real k"
      by (rule divide_right_mono[OF ge]) (use k1 in linarith)
    finally have vlow: "m / len \<le> vm" unfolding vm_def .
    have mlpos: "0 < m / len" using assms(2) lpos by simp
    have vv: "0 < vm * (m / len)" using True mlpos by (rule mult_pos_pos)
    have "pm / vm \<le> pm / (m / len)" by (rule divide_left_mono[OF vlow pm(1) vv])
    also have "\<dots> \<le> (len * B) / (m / len)"
      by (rule divide_right_mono[OF pm(2)]) (use mlpos in linarith)
    also have "\<dots> = len * B * len / m" by simp
    finally have "pm / vm \<le> MAX_VALUE" using cap5 by linarith
    moreover have "0 \<le> pm / vm" using pm(1) True by simp
    ultimately have "\<bar>pm / vm\<bar> \<le> MAX_VALUE" by linarith
    moreover have "vm \<noteq> 0" using True by linarith
    ultimately have d: "odiv (Fin pm) (Fin vm) = Fin (pm / vm)" by (intro odiv_Fin)
    show ?thesis unfolding unf d using True by (simp add: jgt_def)
  qed
qed

text \<open>Flatness.\<close>

lemma flatness_fold:
  assumes "\<forall>x \<in> set xs. 0 < x \<longrightarrow> m \<le> x \<and> x \<le> B \<and> \<bar>ln x\<bar> \<le> L"
    and "0 \<le> L" and "0 \<le> B" and "0 \<le> m"
    and "real (n + length xs) * L \<le> MAX_VALUE" and "real (n + length xs) * B \<le> MAX_VALUE"
    and "\<bar>g\<bar> \<le> real n * L" and "real n * m \<le> a" and "a \<le> real n * B"
  shows "\<exists>g' a' n'. fold flatnessStep xs (Fin g, Fin a, n) = (Fin g', Fin a', n')
     \<and> \<bar>g'\<bar> \<le> real n' * L \<and> real n' * m \<le> a' \<and> a' \<le> real n' * B
     \<and> n' \<le> n + length xs"
  using assms(1,5-9)
proof (induction xs arbitrary: g a n)
  case Nil
  thus ?case by simp
next
  case (Cons x xs)
  have rest: "\<forall>x \<in> set xs. 0 < x \<longrightarrow> m \<le> x \<and> x \<le> B \<and> \<bar>ln x\<bar> \<le> L"
    using Cons.prems(1) by simp
  show ?case
  proof (cases "0 < x")
    case False
    hence st: "flatnessStep x (Fin g, Fin a, n) = (Fin g, Fin a, n)" by (simp add: flatnessStep_def)
    have le: "real (n + length xs) \<le> real (n + length (x # xs))" by simp
    have c1: "real (n + length xs) * L \<le> MAX_VALUE"
      using mult_right_mono[OF le assms(2)] Cons.prems(2) by linarith
    have c2: "real (n + length xs) * B \<le> MAX_VALUE"
      using mult_right_mono[OF le assms(3)] Cons.prems(3) by linarith
    from Cons.IH[OF rest c1 c2 Cons.prems(4,5,6)] obtain g' a' n' where
      r: "fold flatnessStep xs (Fin g, Fin a, n) = (Fin g', Fin a', n')"
         "\<bar>g'\<bar> \<le> real n' * L" "real n' * m \<le> a'" "a' \<le> real n' * B" "n' \<le> n + length xs"
      by blast
    have "fold flatnessStep (x # xs) (Fin g, Fin a, n) = (Fin g', Fin a', n')"
      by (simp only: fold_simps o_apply st r(1))
    moreover have "n' \<le> n + length (x # xs)" using r(5) by simp
    ultimately show ?thesis using r(2,3,4) by blast
  next
    case True
    hence x: "m \<le> x" "x \<le> B" "\<bar>ln x\<bar> \<le> L" using Cons.prems(1) by simp_all
    have eq: "real (Suc n + length xs) = real (n + length (x # xs))" by simp
    have c1: "real (Suc n + length xs) * L \<le> MAX_VALUE" unfolding eq by (rule Cons.prems(2))
    have c2: "real (Suc n + length xs) * B \<le> MAX_VALUE" unfolding eq by (rule Cons.prems(3))
    have sn: "real (Suc n) \<le> real (Suc n + length xs)" by simp
    have capL: "real (Suc n) * L \<le> MAX_VALUE"
      using mult_right_mono[OF sn assms(2)] c1 by linarith
    have capB: "real (Suc n) * B \<le> MAX_VALUE"
      using mult_right_mono[OF sn assms(3)] c2 by linarith
    have sL: "real (Suc n) * L = real n * L + L" by (simp add: algebra_simps)
    have sB: "real (Suc n) * B = real n * B + B" by (simp add: algebra_simps)
    have sm: "real (Suc n) * m = real n * m + m" by (simp add: algebra_simps)
    have g': "\<bar>g + ln x\<bar> \<le> real (Suc n) * L" unfolding sL using Cons.prems(4) x(3) by linarith
    have a'lo: "real (Suc n) * m \<le> a + x" unfolding sm using Cons.prems(5) x(1) by linarith
    have a'hi: "a + x \<le> real (Suc n) * B" unfolding sB using Cons.prems(6) x(2) by linarith
    have lg: "jlog (Fin x) = Fin (ln x)" using True by simp
    have "\<bar>g + ln x\<bar> \<le> MAX_VALUE" using g' capL by linarith
    hence ag: "oadd (Fin g) (Fin (ln x)) = Fin (g + ln x)" by (rule oadd_Fin)
    have mpos: "0 \<le> real n * m + m" using assms(4) by simp
    have "\<bar>a + x\<bar> \<le> MAX_VALUE" using a'lo a'hi capB mpos unfolding sm by linarith
    hence aa: "oadd (Fin a) (Fin x) = Fin (a + x)" by (rule oadd_Fin)
    have st: "flatnessStep x (Fin g, Fin a, n) = (Fin (g + ln x), Fin (a + x), Suc n)"
      using True by (simp add: flatnessStep_def lg ag aa)
    from Cons.IH[OF rest c1 c2 g' a'lo a'hi] obtain g'' a'' n' where
      r: "fold flatnessStep xs (Fin (g + ln x), Fin (a + x), Suc n) = (Fin g'', Fin a'', n')"
         "\<bar>g''\<bar> \<le> real n' * L" "real n' * m \<le> a''" "a'' \<le> real n' * B"
         "n' \<le> Suc n + length xs"
      by blast
    have "fold flatnessStep (x # xs) (Fin g, Fin a, n) = (Fin g'', Fin a'', n')"
      by (simp only: fold_simps o_apply st r(1))
    moreover have "n' \<le> n + length (x # xs)" using r(5) by simp
    ultimately show ?thesis using r(2,3,4) by blast
  qed
qed

lemma flatness_bounded:
  assumes "\<forall>x \<in> set spectrum. 0 < x \<longrightarrow> m \<le> x \<and> x \<le> B \<and> \<bar>ln x\<bar> \<le> L"
    and "0 \<le> L" and "0 < m" and "m \<le> B"
    and "real (length spectrum) * L \<le> MAX_VALUE" and "real (length spectrum) * B \<le> MAX_VALUE"
    and "exp L / m \<le> MAX_VALUE" and "exp L \<le> MAX_VALUE"
  shows "isFinite (calculateSpectralFlatness spectrum)"
proof -
  have B: "0 \<le> B" using assms(3,4) by linarith
  have m0: "0 \<le> m" using assms(3) by linarith
  from flatness_fold[OF assms(1,2) B m0, of 0 0 0] assms(5,6) obtain g a n where
    f: "fold flatnessStep spectrum (Fin 0, Fin 0, 0) = (Fin g, Fin a, n)"
    and g: "\<bar>g\<bar> \<le> real n * L" and alo: "real n * m \<le> a" and ahi: "a \<le> real n * B"
    and nl: "n \<le> length spectrum" by auto
  show ?thesis
  proof (cases "n = 0")
    case True
    thus ?thesis by (simp add: calculateSpectralFlatness_def f)
  next
    case False
    hence n1: "1 \<le> real n" by simp
    hence n0: "0 < real n" and nz: "real n \<noteq> 0" by linarith+
    define y where "y = g / real n"
    define am where "am = a / real n"
    have "\<bar>g\<bar> / real n \<le> L" using g n0 by (simp add: divide_le_eq mult.commute)
    hence yL: "\<bar>y\<bar> \<le> L" unfolding y_def using n0 by simp
    have "real n \<le> real (length spectrum)" using nl by (simp only: of_nat_le_iff)
    hence "1 \<le> real (length spectrum)" using n1 by linarith
    hence "1 * L \<le> real (length spectrum) * L" by (intro mult_right_mono assms(2))
    hence "\<bar>g / real n\<bar> \<le> MAX_VALUE" using yL assms(5) unfolding y_def by linarith
    hence dy: "odiv (Fin g) (Fin (real n)) = Fin y" unfolding y_def by (rule odiv_Fin[OF nz])
    have ey: "exp y \<le> exp L" using yL by simp
    hence "exp y \<le> MAX_VALUE" using assms(8) by linarith
    hence ex: "oexp (Fin y) = Fin (exp y)" by (rule oexp_Fin)
    have amlo: "m \<le> am" unfolding am_def using alo n0 by (simp add: le_divide_eq mult.commute)
    have amhi: "am \<le> B" unfolding am_def using ahi n0 by (simp add: divide_le_eq mult.commute)
    have "1 * B \<le> real (length spectrum) * B"
      using \<open>1 \<le> real (length spectrum)\<close> by (intro mult_right_mono B)
    hence "\<bar>a / real n\<bar> \<le> MAX_VALUE" using amlo amhi assms(3,6) unfolding am_def by linarith
    hence da: "odiv (Fin a) (Fin (real n)) = Fin am" unfolding am_def by (rule odiv_Fin[OF nz])
    have ampos: "0 < am" using amlo assms(3) by linarith
    have mm: "0 < am * m" using ampos assms(3) by (rule mult_pos_pos)
    have "exp y / am \<le> exp y / m"
      by (rule divide_left_mono[OF amlo _ mm]) simp
    also have "\<dots> \<le> exp L / m" by (rule divide_right_mono[OF ey]) (use assms(3) in linarith)
    finally have "exp y / am \<le> MAX_VALUE" using assms(7) by linarith
    moreover have "0 \<le> exp y / am" using ampos by simp
    ultimately have "\<bar>exp y / am\<bar> \<le> MAX_VALUE" by linarith
    moreover have "am \<noteq> 0" using ampos by linarith
    ultimately have d: "odiv (Fin (exp y)) (Fin am) = Fin (exp y / am)" by (intro odiv_Fin)
    have "calculateSpectralFlatness spectrum =
        (if jgt (Fin am) (Fin 0) then Fin (exp y / am) else Fin 0)"
      unfolding calculateSpectralFlatness_def f using False
      by (simp only: prod.case if_False Let_def dy ex da d)
    thus ?thesis by simp
  qed
qed

text \<open>
The logarithm of a positive single-precision value lies between \<open>-149\<close> and 128.
\<close>

lemma ln_two_le: "ln (2::real) \<le> 1"
  using ln_le_minus_one[of "2::real"] by simp

lemma ln_le_pow2:
  assumes "0 < x" and "x \<le> 2 ^ n"
  shows "ln x \<le> real n"
proof -
  have "ln x \<le> ln ((2::real) ^ n)" using assms by simp
  also have "\<dots> = real n * ln 2" by (simp add: ln_realpow)
  also have "\<dots> \<le> real n * 1" by (intro mult_left_mono ln_two_le) simp
  finally show ?thesis by simp
qed

lemma ln_ge_pow2:
  assumes "1 / 2 ^ n \<le> x"
  shows "- real n \<le> ln x"
proof -
  have p: "0 < 1 / (2::real) ^ n" by simp
  hence x: "0 < x" using assms by linarith
  have "ln (1 / (2::real) ^ n) \<le> ln x" using assms p x by (simp only: ln_le_cancel_iff)
  moreover have "ln (1 / (2::real) ^ n) = - (real n * ln 2)"
    by (simp add: ln_div ln_realpow)
  moreover have "real n * ln 2 \<le> real n * 1" by (intro mult_left_mono ln_two_le) simp
  ultimately show ?thesis by simp
qed

lemma float32_ln:
  assumes "float32 x" and "0 < x"
  shows "\<bar>ln x\<bar> \<le> 149"
proof -
  from float32_pos[OF assms] have lo: "F32_MIN \<le> x" and hi: "x \<le> 2 ^ 128" by blast+
  have "ln x \<le> real (128::nat)" by (rule ln_le_pow2[OF assms(2) hi])
  moreover have "- real (149::nat) \<le> ln x" by (rule ln_ge_pow2[OF lo[unfolded F32_MIN_def]])
  ultimately show ?thesis by simp
qed

lemma exp_149: "exp (149::real) \<le> 3 ^ 149"
proof -
  have "exp (149::real) = exp (of_nat 149 * 1)" by simp
  also have "\<dots> = exp 1 ^ 149" by (rule exp_of_nat_mult)
  also have "\<dots> \<le> 3 ^ 149" by (rule power_mono) (use exp_le in simp_all)
  finally show ?thesis .
qed

text \<open>Peak frequency.\<close>

lemma ratio_bound:
  assumes "1 / 2 \<le> nyq" and "\<bar>freq\<bar> \<le> F"
  shows "\<bar>freq / nyq\<bar> \<le> 2 * (F::real)"
proof -
  have pos: "0 < nyq" using assms(1) by linarith
  have "\<bar>freq\<bar> / nyq \<le> \<bar>freq\<bar> / (1 / 2)"
    by (rule divide_left_mono[OF assms(1)]) (use pos in simp_all)
  hence "\<bar>freq\<bar> / nyq \<le> 2 * F" using assms(2) by simp
  moreover have "\<bar>freq / nyq\<bar> = \<bar>freq\<bar> / nyq" using pos by simp
  ultimately show ?thesis by linarith
qed

lemma peakBinOf_value:
  assumes "1 / 2 \<le> nyq" and "\<bar>freq\<bar> \<le> F" and "real len \<le> N"
    and "2 * F \<le> MAX_VALUE" and "2 * F * N \<le> MAX_VALUE"
  shows "peakBinOf freq (Fin nyq) len = Fin (freq / nyq * real len)
     \<and> \<bar>freq / nyq * real len\<bar> \<le> 2 * F * N"
proof -
  have nz: "nyq \<noteq> 0" using assms(1) by linarith
  have q: "\<bar>freq / nyq\<bar> \<le> 2 * F" by (rule ratio_bound[OF assms(1,2)])
  hence "\<bar>freq / nyq\<bar> \<le> MAX_VALUE" using assms(4) by linarith
  hence d: "odiv (Fin freq) (Fin nyq) = Fin (freq / nyq)" by (rule odiv_Fin[OF nz])
  have "\<bar>freq / nyq\<bar> * real len \<le> 2 * F * N"
  proof (rule mult_mono[OF q assms(3)])
    show "0 \<le> 2 * F" using q abs_ge_zero[of "freq / nyq"] by linarith
    show "0 \<le> real len" by simp
  qed
  moreover have "\<bar>freq / nyq * real len\<bar> = \<bar>freq / nyq\<bar> * real len"
    by (simp only: abs_mult abs_of_nat)
  ultimately have b: "\<bar>freq / nyq * real len\<bar> \<le> 2 * F * N" by linarith
  hence "\<bar>freq / nyq * real len\<bar> \<le> MAX_VALUE" using assms(5) by linarith
  hence "omul (Fin (freq / nyq)) (Fin (real len)) = Fin (freq / nyq * real len)"
    by (rule omul_Fin)
  thus ?thesis using b by (simp only: peakBinOf_def d simp_thms)
qed

lemma peak_fold_bounded:
  assumes "\<bar>p0\<bar> \<le> P" and "real (length spectrum) \<le> P"
  shows "\<exists>m p. fold (peakStep spectrum) idx (m0, Fin p0) = (m, Fin p) \<and> \<bar>p\<bar> \<le> P"
  using assms(1)
proof (induction idx arbitrary: m0 p0)
  case Nil thus ?case by simp
next
  case (Cons i idx)
  show ?case
  proof (cases "jgt (arr spectrum i) (Fin m0)")
    case True
    hence st: "peakStep spectrum i (m0, Fin p0) = (spectrum ! nat i, Fin (of_int i))"
      by (simp add: peakStep_def)
    have "0 \<le> i \<and> i < int (length spectrum)"
      using True by (cases "0 \<le> i \<and> i < int (length spectrum)") (simp_all add: arr_def jgt_def)
    hence "0 \<le> real_of_int i" "real_of_int i \<le> real_of_int (int (length spectrum))"
      by (simp_all only: of_int_0_le_iff of_int_le_iff less_imp_le)
    hence "0 \<le> real_of_int i" "real_of_int i \<le> real (length spectrum)" by simp_all
    hence "\<bar>real_of_int i\<bar> \<le> P" using assms(2) by linarith
    from Cons.IH[OF this, of "spectrum ! nat i"] show ?thesis by (simp add: st)
  next
    case False
    hence "peakStep spectrum i (m0, Fin p0) = (m0, Fin p0)" by (simp add: peakStep_def)
    thus ?thesis using Cons.IH[OF Cons.prems, of m0] by simp
  qed
qed

lemma loopIndices_Fin: "\<exists>idx. loopIndices (Fin s) (Fin e) = Some idx"
  by (simp add: loopIndices_def)

lemma floor_abs_le: "\<bar>x\<bar> \<le> b \<Longrightarrow> \<bar>real_of_int \<lfloor>x\<rfloor>\<bar> \<le> b + 1"
  by linarith

lemma peakFrequency_bounded:
  assumes "1 \<le> sampleRate" and "sampleRate \<le> R" and "spectrum \<noteq> []"
    and "real (length spectrum) \<le> N" and "\<bar>lowFreq\<bar> \<le> F" and "\<bar>highFreq\<bar> \<le> F"
    and "R \<le> MAX_VALUE" and "2 * F * N + 1 + N \<le> MAX_VALUE"
    and "(2 * F * N + 1 + N) * R \<le> MAX_VALUE" and "2 * F \<le> MAX_VALUE"
  shows "returnsFinite (findPeakFrequency spectrum sampleRate lowFreq highFreq)"
proof -
  let ?len = "length spectrum"
  define nyq where "nyq = sampleRate / 2"
  define P where "P = 2 * F * N + 1 + N"
  have nyq: "1 / 2 \<le> nyq" unfolding nyq_def using assms(1) by simp
  have nyqR: "nyq \<le> R" unfolding nyq_def using assms(1,2) by simp
  have n1: "1 \<le> real ?len" by (rule one_le_length[OF assms(3)])
  have N1: "1 \<le> N" using n1 assms(4) by linarith
  have F0: "0 \<le> F" using assms(5) by linarith
  have FN0: "0 \<le> 2 * F * N" using F0 N1 by simp
  have FN: "2 * F * N \<le> MAX_VALUE" using assms(8) N1 by linarith
  have "\<bar>sampleRate / 2\<bar> \<le> MAX_VALUE" using assms(1,2,7) by simp
  hence ny: "odiv (Fin sampleRate) (Fin 2) = Fin nyq"
    unfolding nyq_def by (intro odiv_Fin) simp_all
  define lo where "lo = lowFreq / nyq * real ?len"
  define hi where "hi = highFreq / nyq * real ?len"
  from peakBinOf_value[OF nyq assms(5,4,10) FN] have
    pl: "peakBinOf lowFreq (Fin nyq) ?len = Fin lo" and lob: "\<bar>lo\<bar> \<le> 2 * F * N"
    unfolding lo_def by blast+
  from peakBinOf_value[OF nyq assms(6,4,10) FN] have
    ph: "peakBinOf highFreq (Fin nyq) ?len = Fin hi"
    unfolding hi_def by blast
  define l where "l = real_of_int \<lfloor>lo\<rfloor>"
  define u where "u = min (real_of_int \<lceil>hi\<rceil>) (real ?len)"
  have lowBin: "jfloor (Fin lo) = Fin l" by (simp add: l_def)
  have upper: "jmin (jceil (Fin hi)) (Fin (real ?len)) = Fin u" by (simp add: u_def)
  have lP: "\<bar>l\<bar> \<le> P" unfolding l_def P_def using floor_abs_le[OF lob] N1 by linarith
  have lenP: "real ?len \<le> P" unfolding P_def using assms(4) FN0 by linarith
  from loopIndices_Fin[of l u] obtain idx where idx: "loopIndices (Fin l) (Fin u) = Some idx" by blast
  from peak_fold_bounded[OF lP lenP, of idx 0] obtain m p where
    f: "fold (peakStep spectrum) idx (0, Fin l) = (m, Fin p)" and pP: "\<bar>p\<bar> \<le> P" by blast
  have lz: "real ?len \<noteq> 0" using n1 by linarith
  have "\<bar>p\<bar> / real ?len \<le> \<bar>p\<bar>" by (rule div_le_self_real[OF _ n1]) simp
  moreover have "\<bar>p / real ?len\<bar> = \<bar>p\<bar> / real ?len" by simp
  ultimately have q: "\<bar>p / real ?len\<bar> \<le> P" using pP by linarith
  have PM: "P \<le> MAX_VALUE" unfolding P_def by (rule assms(8))
  have "\<bar>p / real ?len\<bar> \<le> MAX_VALUE" using q PM by linarith
  hence d: "odiv (Fin p) (Fin (real ?len)) = Fin (p / real ?len)" by (rule odiv_Fin[OF lz])
  have nyq0: "0 \<le> nyq" using nyq by linarith
  have "\<bar>p / real ?len\<bar> * \<bar>nyq\<bar> \<le> P * R"
  proof (rule mult_mono[OF q])
    show "\<bar>nyq\<bar> \<le> R" using nyqR nyq0 by linarith
    show "0 \<le> P" using lenP n1 by linarith
    show "0 \<le> \<bar>nyq\<bar>" by simp
  qed
  moreover have "\<bar>p / real ?len * nyq\<bar> = \<bar>p / real ?len\<bar> * \<bar>nyq\<bar>" by (rule abs_mult)
  ultimately have "\<bar>p / real ?len * nyq\<bar> \<le> P * R" by (simp only:)
  hence "\<bar>p / real ?len * nyq\<bar> \<le> MAX_VALUE"
    using assms(9)[folded P_def] by (rule order_trans)
  hence mm: "omul (Fin (p / real ?len)) (Fin nyq) = Fin (p / real ?len * nyq)" by (rule omul_Fin)
  have "findPeakFrequency spectrum sampleRate lowFreq highFreq = Some (Fin (p / real ?len * nyq))"
    unfolding findPeakFrequency_def Let_def ny pl ph lowBin upper idx
    by (simp only: option.case f prod.case d mm)
  thus ?thesis by (simp add: returnsFinite_def)
qed

text \<open>Band energy.\<close>

lemma sq_le: "\<bar>x\<bar> \<le> B \<Longrightarrow> x * x \<le> B * (B::real)"
proof -
  assume a: "\<bar>x\<bar> \<le> B"
  have "\<bar>x\<bar> * \<bar>x\<bar> \<le> B * B" by (rule mult_mono[OF a a]) (use a in simp_all)
  thus ?thesis by simp
qed

lemma sum_sq_le:
  "\<forall>x \<in> set xs. \<bar>x\<bar> \<le> B \<Longrightarrow> sum_list (map (\<lambda>x. x * x) xs) \<le> real (length xs) * (B * B)"
proof (induction xs)
  case Nil show ?case by simp
next
  case (Cons x xs)
  have "x * x \<le> B * B" using Cons.prems by (intro sq_le) simp
  moreover have "sum_list (map (\<lambda>x. x * x) xs) \<le> real (length xs) * (B * B)"
    using Cons by simp
  ultimately show ?case by (simp add: algebra_simps)
qed

lemma bandSlice_subset:
  assumes "0 \<le> s" and "e \<le> int (length spectrum)"
  shows "set (bandSlice spectrum s e) \<subseteq> set spectrum"
  using assms by (auto simp: bandSlice_def)

lemma bandEnergy_bounded:
  assumes "\<forall>x \<in> set spectrum. \<bar>x\<bar> \<le> B" and "0 \<le> B" and "0 < sampleRate"
  shows "\<exists>v. getBandEnergy spectrum lowFreq highFreq sampleRate = Some (Fin v) \<and> 0 \<le> v \<and> v \<le> B"
proof -
  define s where "s = max 0 \<lfloor>lowFreq / (sampleRate / 2) * real (length spectrum)\<rfloor>"
  define e where "e = min \<lceil>highFreq / (sampleRate / 2) * real (length spectrum)\<rceil> (int (length spectrum))"
  define bins where "bins = bandSlice spectrum s e"
  define sq where "sq = sum_list (map (\<lambda>x. x * x) bins)"
  define v where "v = (if e \<le> s then 0 else sqrt (sq / (real (length bins) + 1)))"
  have val: "getBandEnergy spectrum lowFreq highFreq sampleRate = Some (Fin v)"
    unfolding bandEnergy_value[OF assms(3)] Let_def v_def sq_def bins_def s_def e_def by (rule refl)
  have "set bins \<subseteq> set spectrum" unfolding bins_def
    by (rule bandSlice_subset) (simp_all add: s_def e_def)
  hence "\<forall>x \<in> set bins. \<bar>x\<bar> \<le> B" using assms(1) by blast
  hence up: "sq \<le> real (length bins) * (B * B)" unfolding sq_def by (rule sum_sq_le)
  have nn: "0 \<le> sq" unfolding sq_def by (rule sum_sq_nonneg)
  have BB: "0 \<le> B * B" by simp
  have "(real (length bins) + 1) * (B * B) = real (length bins) * (B * B) + B * B"
    by (simp add: algebra_simps)
  hence "sq \<le> (real (length bins) + 1) * (B * B)" using up BB by linarith
  hence "sq / (real (length bins) + 1) \<le> B * B" by (simp add: divide_le_eq mult.commute)
  hence "sqrt (sq / (real (length bins) + 1)) \<le> sqrt (B * B)" by (simp only: real_sqrt_le_iff)
  hence "sqrt (sq / (real (length bins) + 1)) \<le> B" using assms(2) by simp
  moreover have "0 \<le> sqrt (sq / (real (length bins) + 1))" using nn by simp
  ultimately have "0 \<le> v \<and> v \<le> B" unfolding v_def using assms(2) by simp
  thus ?thesis using val by blast
qed

text \<open>
Under the same bounds no step of \<^verbatim>\<open>getBandEnergy\<close> leaves the range of a double: the
range-checked sum of squares is the exact one, and so are the bin positions.
\<close>

lemma band_fold_in_range:
  assumes "\<forall>i \<in> set idx. 0 \<le> i \<and> i < int (length spectrum)"
    and "\<forall>x \<in> set spectrum. \<bar>x\<bar> \<le> B" and "0 \<le> a"
    and "a + real (length idx) * (B * B) \<le> MAX_VALUE"
  shows "fold (\<lambda>i energy. oadd energy (omul (arr spectrum i) (arr spectrum i))) idx (Fin a)
     = fold (\<lambda>i energy. jadd energy (jmul (arr spectrum i) (arr spectrum i))) idx (Fin a)"
  using assms(1,3,4)
proof (induction idx arbitrary: a)
  case Nil show ?case by simp
next
  case (Cons i idx)
  define x where "x = spectrum ! nat i"
  have i: "arr spectrum i = Fin x" using Cons.prems(1) by (simp add: arr_def x_def)
  have "nat i < length spectrum" using Cons.prems(1) by auto
  hence "x \<in> set spectrum" unfolding x_def by (rule nth_mem)
  hence xB: "x * x \<le> B * B" using assms(2) by (intro sq_le) blast
  have x0: "0 \<le> x * x" by simp
  have BB: "0 \<le> real (length idx) * (B * B)" by simp
  have cap': "a + real (length idx) * (B * B) + B * B \<le> MAX_VALUE"
    using Cons.prems(3) by (simp add: algebra_simps)
  have "\<bar>x * x\<bar> \<le> MAX_VALUE" using xB x0 cap' BB Cons.prems(2) by linarith
  hence m: "omul (Fin x) (Fin x) = Fin (x * x)" by (rule omul_Fin)
  have "\<bar>a + x * x\<bar> \<le> MAX_VALUE" using xB x0 cap' BB Cons.prems(2) by linarith
  hence ad: "oadd (Fin a) (Fin (x * x)) = Fin (a + x * x)" by (rule oadd_Fin)
  have rest: "\<forall>i \<in> set idx. 0 \<le> i \<and> i < int (length spectrum)" using Cons.prems(1) by simp
  have a': "0 \<le> a + x * x" using Cons.prems(2) x0 by linarith
  have c': "a + x * x + real (length idx) * (B * B) \<le> MAX_VALUE" using cap' xB by linarith
  have e: "jadd (Fin a) (jmul (Fin x) (Fin x)) = Fin (a + x * x)" by simp
  show ?case
    by (simp only: fold_simps o_apply i m ad e Cons.IH[OF rest a' c'])
qed

lemma freqToBin_in_range:
  assumes "1 \<le> sampleRate" and "\<bar>freq\<bar> \<le> F" and "real len \<le> N"
    and "2 * F \<le> MAX_VALUE" and "2 * F * N \<le> MAX_VALUE"
  shows "freqToBin freq (sampleRate / 2) len = peakBinOf freq (Fin (sampleRate / 2)) len"
proof -
  have h: "1 / 2 \<le> sampleRate / 2" using assms(1) by simp
  hence nz: "sampleRate / 2 \<noteq> 0" by linarith
  show ?thesis
    using peakBinOf_value[OF h assms(2-5)] by (simp only: freqToBin_Fin[OF nz])
qed

text \<open>The bounds of the magnitudes, lengths and rates below stay under \<open>MAX_VALUE\<close>.\<close>

lemma pow_cap: "n \<le> 1023 \<Longrightarrow> (2::real) ^ n \<le> MAX_VALUE"
proof -
  assume "n \<le> 1023"
  hence "(2::real) ^ n \<le> 2 ^ 1023" by (intro power_increasing) simp_all
  thus ?thesis using MAX_VALUE_ge by linarith
qed

lemma prod_cap:
  assumes "0 \<le> a" and "a \<le> 2 ^ i" and "0 \<le> b" and "b \<le> 2 ^ j" and "i + j \<le> 1023"
  shows "0 \<le> a * b \<and> a * b \<le> 2 ^ (i + j) \<and> a * b \<le> MAX_VALUE"
proof -
  have "a * b \<le> 2 ^ i * 2 ^ j" by (rule mult_mono[OF assms(2,4)]) (use assms(3) in simp_all)
  hence le: "a * b \<le> 2 ^ (i + j)" by (simp only: power_add)
  moreover have "0 \<le> a * b" using assms(1,3) by simp
  ultimately show ?thesis using pow_cap[OF assms(5)] by linarith
qed

lemma len_bound: "n \<le> 2 ^ 32 \<Longrightarrow> 0 \<le> real n \<and> real n \<le> 2 ^ 32"
proof -
  assume "n \<le> 2 ^ 32"
  hence "real n \<le> real (2 ^ 32)" by (simp only: of_nat_le_iff)
  thus ?thesis by simp
qed

lemma div_F32_MIN: "x / F32_MIN = x * 2 ^ 149"
  by (simp add: F32_MIN_def)

lemma float32_nonneg:
  "float32 x \<and> 0 \<le> x \<Longrightarrow> (x = 0 \<or> F32_MIN \<le> x) \<and> 0 \<le> x \<and> x \<le> 2 ^ 128"
  using float32_pos[of x] by (cases "x = 0") auto

lemma float32_flat:
  "float32 x \<Longrightarrow> 0 < x \<longrightarrow> F32_MIN \<le> x \<and> x \<le> 2 ^ 128 \<and> \<bar>ln x\<bar> \<le> 149"
  using float32_pos[of x] float32_ln[of x] by blast

lemma exp_cap: "exp (149::real) / F32_MIN \<le> MAX_VALUE \<and> exp (149::real) \<le> MAX_VALUE"
proof -
  have e: "exp (149::real) \<le> 3 ^ 149" by (rule exp_149)
  have "(3::real) ^ 149 \<le> 4 ^ 149" by (rule power_mono) simp_all
  also have "(4::real) ^ 149 = (2 ^ 2) ^ 149" by simp
  also have "\<dots> = 2 ^ 298" by (simp only: power_mult[symmetric]) simp
  finally have e2: "exp (149::real) \<le> 2 ^ 298" using e by linarith
  have e0: "0 \<le> exp (149::real)" by simp
  have p: "(0::real) \<le> 2 ^ 149" "(2::real) ^ 149 \<le> 2 ^ 149" by simp_all
  from prod_cap[OF e0 e2 p, THEN conjunct2, THEN conjunct2]
  have "exp (149::real) * 2 ^ 149 \<le> MAX_VALUE" by simp
  moreover have "exp (149::real) \<le> MAX_VALUE" using e2 pow_cap[of 298] by simp
  ultimately show ?thesis by (simp only: div_F32_MIN simp_thms)
qed

text \<open>
Inputs on which a feature function returns NaN or an infinity.
\<close>

lemma MAX_VALUE_lt_2e308: "MAX_VALUE < 10 ^ 308 + 10 ^ 308"
proof -
  have "(2::real) ^ 1024 < 10 ^ 308 + 10 ^ 308" by simp
  thus ?thesis using MAX_VALUE_lt by linarith
qed

lemma MAX_VALUE_ge_e308: "10 ^ 308 \<le> MAX_VALUE"
  unfolding MAX_VALUE_def by simp

lemma contrast_one_bin: "calculateSpectralContrast [1] = NaN"
proof -
  have one: "ovf 1 = Fin 1" by (rule ovf_Fin) (use MAX_VALUE_ge_one in simp)
  show ?thesis
    by (simp add: calculateSpectralContrast_def sliceLast_def Let_def infBySign_def jgt_def
        oadd_def odiv_def one)
qed

lemma energy_overflow_gen:
  assumes "MAX_VALUE < x * x"
  shows "calculateEnergy [x, x] = PInf"
proof -
  have sq: "omul (Fin x) (Fin x) = PInf"
    using assms by (simp only: omul_def jmul.simps rng.simps ovf_PInf)
  show ?thesis
    unfolding calculateEnergy_def Let_def
    by (simp only: fold_simps sq) (simp add: oadd_def odiv_def)
qed

lemma energy_overflow: "calculateEnergy [10 ^ 200, 10 ^ 200] = PInf"
proof -
  have "(10::real) ^ 320 \<le> 10 ^ 200 * 10 ^ 200" by simp
  hence "MAX_VALUE < 10 ^ 200 * 10 ^ 200" using MAX_VALUE_lt_e320 by linarith
  thus ?thesis by (rule energy_overflow_gen)
qed

lemma centroid_overflow_gen:
  assumes "0 < x" and "x \<le> MAX_VALUE" and "MAX_VALUE < x + x"
  shows "calculateSpectralCentroid [x, x] 44100 = NaN"
proof -
  have big: "22050 \<le> MAX_VALUE" "11025 \<le> MAX_VALUE"
    using pow_cap[of 20] by simp_all
  have ny: "odiv (Fin 44100) (Fin 2) = Fin 22050" using odiv_Fin[of 2 44100] big by simp
  have f0: "omul (odiv (Fin (real 0)) (Fin (real 2))) (Fin 22050) = Fin 0"
    by (simp add: odiv_def omul_def ovf_def) (use MAX_VALUE_ge_one in linarith)
  have f1: "omul (odiv (Fin (real 1)) (Fin (real 2))) (Fin 22050) = Fin 11025"
  proof -
    have "odiv (Fin (real 1)) (Fin (real 2)) = Fin (1 / 2)"
      using odiv_Fin[of 2 1] MAX_VALUE_ge_one by simp
    moreover have "omul (Fin (1 / 2)) (Fin 22050) = Fin 11025"
      using omul_Fin[of "1 / 2" 22050] big by simp
    ultimately show ?thesis by simp
  qed
  have w0: "omul (Fin 0) (Fin x) = Fin 0" using omul_Fin[of 0 x] MAX_VALUE_ge_one by simp
  have "MAX_VALUE < 11025 * x" using assms(1,3) by linarith
  hence w1: "omul (Fin 11025) (Fin x) = PInf"
    by (simp only: omul_def jmul.simps rng.simps ovf_PInf)
  have z: "oadd (Fin 0) (Fin 0) = Fin 0" using oadd_Fin[of 0 0] MAX_VALUE_ge_one by simp
  have ovf0: "ovf 0 = Fin 0" by (rule ovf_Fin) (use MAX_VALUE_ge_one in simp)
  have ws: "fold (\<lambda>i weightedSum.
             oadd weightedSum
               (omul (omul (odiv (Fin (real i)) (Fin (real (length [x, x])))) (Fin 22050))
                  (Fin ([x, x] ! i))))
           [0 ..< length [x, x]] (Fin 0) = PInf"
  proof -
    have "[0 ..< length [x, x]] = [0, 1]" by (simp add: upt_rec)
    thus ?thesis using f0 f1 by (simp add: w0 w1 z oadd_def ovf0)
  qed
  have s0: "oadd (Fin 0) (Fin x) = Fin x" using oadd_Fin[of 0 x] assms(1,2) by simp
  have s1: "oadd (Fin x) (Fin x) = PInf"
    using assms(3) by (simp only: oadd_def jadd.simps rng.simps ovf_PInf)
  have sm: "fold (\<lambda>x sum. oadd sum (Fin x)) [x, x] (Fin 0) = PInf" by (simp add: s0 s1)
  show ?thesis
    unfolding calculateSpectralCentroid_def Let_def ny ws sm
    by (simp add: jgt_def odiv_def)
qed

lemma centroid_overflow: "calculateSpectralCentroid [10 ^ 308, 10 ^ 308] 44100 = NaN"
proof -
  have a: "(0::real) < 10 ^ 308" by simp
  show ?thesis by (rule centroid_overflow_gen[OF a MAX_VALUE_ge_e308 MAX_VALUE_lt_2e308])
qed

lemma flux_overflow_gen:
  assumes "\<bar>x\<bar> \<le> MAX_VALUE" and "MAX_VALUE < x * x"
  shows "calculateSpectralFluxBetween [x] [0] = PInf"
proof -
  have d: "osub (Fin x) (Fin 0) = Fin x" using osub_Fin[of x 0] assms(1) by simp
  have sq: "omul (Fin x) (Fin x) = PInf"
    using assms(2) by (simp only: omul_def jmul.simps rng.simps ovf_PInf)
  show ?thesis
    unfolding calculateSpectralFluxBetween_def Let_def
    by (simp add: d sq oadd_def odiv_def)
qed

lemma flux_overflow: "calculateSpectralFluxBetween [10 ^ 200] [0] = PInf"
proof -
  have "(10::real) ^ 200 \<le> 10 ^ 308" by simp
  hence a: "\<bar>(10::real) ^ 200\<bar> \<le> MAX_VALUE" using MAX_VALUE_ge_e308 by simp
  have "(10::real) ^ 320 \<le> 10 ^ 200 * 10 ^ 200" by simp
  hence b: "MAX_VALUE < 10 ^ 200 * 10 ^ 200" using MAX_VALUE_lt_e320 by linarith
  show ?thesis by (rule flux_overflow_gen[OF a b])
qed

lemma contrast_overflow_gen:
  assumes "0 < e" "e \<le> 1" "MAX_VALUE < 1 / e"
  shows "calculateSpectralContrast [1, e, e, e, e, e, e, e, e, e] = PInf"
proof -
  let ?xs = "[1, e, e, e, e, e, e, e, e, e]"
  have srt: "sort ?xs = [e, e, e, e, e, e, e, e, e, 1]"
    using assms(2) by simp
  have n: "nat \<lfloor>real (length ?xs) * 0.1\<rfloor> = 1" by simp
  have one: "ovf 1 = Fin 1" by (rule ovf_Fin) (use MAX_VALUE_ge_one in simp)
  have eps: "ovf e = Fin e"
    by (rule ovf_Fin) (use MAX_VALUE_ge_one assms in simp)
  have big: "ovf (1 / e) = PInf" by (rule ovf_PInf) (rule assms(3))
  have peak: "odiv (fold (\<lambda>b a. oadd a (Fin b)) (take 1 (rev (sort ?xs))) (Fin 0)) (Fin (real 1)) = Fin 1"
    unfolding srt by (simp add: oadd_def odiv_def one)
  have valley: "odiv (fold (\<lambda>b a. oadd a (Fin b)) (sliceLast 1 (rev (sort ?xs))) (Fin 0)) (Fin (real 1)) = Fin e"
    unfolding srt by (simp add: sliceLast_def oadd_def odiv_def eps)
  have q: "odiv (Fin 1) (Fin e) = PInf"
    using big assms(1) by (simp add: odiv_def)
  show ?thesis
    unfolding calculateSpectralContrast_def Let_def n peak valley q
    using assms(1) by (simp add: jgt_def)
qed

lemma contrast_overflow:
  "calculateSpectralContrast
     [1, 1 / 10 ^ 320, 1 / 10 ^ 320, 1 / 10 ^ 320, 1 / 10 ^ 320, 1 / 10 ^ 320,
      1 / 10 ^ 320, 1 / 10 ^ 320, 1 / 10 ^ 320, 1 / 10 ^ 320] = PInf"
proof -
  have a: "(0::real) < 1 / 10 ^ 320" by simp
  have b: "(1::real) / 10 ^ 320 \<le> 1" by simp
  have c: "MAX_VALUE < 1 / (1 / 10 ^ 320)" using MAX_VALUE_lt_e320 by simp
  show ?thesis by (rule contrast_overflow_gen[OF a b c])
qed

text \<open>
  Claim C9 as stated fails for the feature functions. On the one-bin spectrum \<open>[1]\<close>
  (non-empty, finite, non-negative) \<^verbatim>\<open>calculateSpectralContrast\<close> divides by \<open>topN = 0\<close>
  and returns NaN. Finite magnitudes do not keep the results finite either: the squares of
  two samples of \<open>10 ^ 200\<close> overflow in \<^verbatim>\<open>calculateEnergy\<close>; the sum of two magnitudes of
  \<open>10 ^ 308\<close> overflows in \<^verbatim>\<open>calculateSpectralCentroid\<close>, which returns infinity divided by
  infinity; the squared difference of \<open>10 ^ 200\<close> and 0 overflows in
  \<^verbatim>\<open>calculateSpectralFluxBetween\<close>; and the quotient of a peak mean of 1 by a valley mean
  of \<open>1 / 10 ^ 320\<close> overflows in \<^verbatim>\<open>calculateSpectralContrast\<close>.
\<close>

theorem no_nan_counterexample:
  "calculateSpectralContrast [1] = NaN
   \<and> calculateEnergy [10 ^ 200, 10 ^ 200] = PInf
   \<and> calculateSpectralCentroid [10 ^ 308, 10 ^ 308] 44100 = NaN
   \<and> calculateSpectralFluxBetween [10 ^ 200] [0] = PInf
   \<and> calculateSpectralContrast
     [1, 1 / 10 ^ 320, 1 / 10 ^ 320, 1 / 10 ^ 320, 1 / 10 ^ 320, 1 / 10 ^ 320,
      1 / 10 ^ 320, 1 / 10 ^ 320, 1 / 10 ^ 320, 1 / 10 ^ 320] = PInf"
  using contrast_one_bin energy_overflow centroid_overflow flux_overflow contrast_overflow
  by blast

text \<open>
  Claim C9, amended, for the feature functions on the values a \<^verbatim>\<open>Float32Array\<close> holds.
  Assume that every sample of the window and every magnitude of the spectrum and of the
  previous spectrum is 0 or has an absolute value between \<open>1 / 2 ^ 149\<close> and
  \<open>(2 - 1 / 2 ^ 23) * 2 ^ 127\<close>; that the magnitudes of the spectrum are non-negative; that
  the window is non-empty with at most \<open>2 ^ 32\<close> samples, the spectrum has between 10 and
  \<open>2 ^ 32\<close> bins and the previous spectrum is non-empty; that the sample rate lies between
  1 and \<open>2 ^ 32\<close>; and that the band limits and the peak-search limits lie between 0 and
  \<open>2 ^ 32\<close>. Then energy, zero-crossing rate, centroid, flux, rolloff,
  flatness, peak frequency and contrast, computed with the range-checked operations, are
  finite numbers; the band energy is a number between 0 and \<open>2 ^ 128\<close>; and every
  per-feature similarity is a finite number.
\<close>

theorem features_finite:
  assumes smp: "\<forall>x \<in> set samples. float32 x"
    and sne: "samples \<noteq> []" and sl: "length samples \<le> 2 ^ 32"
    and spc: "\<forall>x \<in> set spectrum. float32 x \<and> 0 \<le> x"
    and l10: "10 \<le> length spectrum" and ll: "length spectrum \<le> 2 ^ 32"
    and prv: "\<forall>x \<in> set prevSpectrum. float32 x" and pne: "prevSpectrum \<noteq> []"
    and r1: "1 \<le> sampleRate" and r2: "sampleRate \<le> 2 ^ 32"
    and bl: "0 \<le> lowFreq \<and> lowFreq \<le> 2 ^ 32" and bh: "0 \<le> highFreq \<and> highFreq \<le> 2 ^ 32"
    and pkl: "0 \<le> peakLow \<and> peakLow \<le> 2 ^ 32" and pkh: "0 \<le> peakHigh \<and> peakHigh \<le> 2 ^ 32"
  shows "isFinite (calculateEnergy samples)
    \<and> isFinite (calculateZeroCrossingRate samples)
    \<and> isFinite (calculateSpectralCentroid spectrum sampleRate)
    \<and> isFinite (calculateSpectralFluxBetween spectrum prevSpectrum)
    \<and> isFinite (calculateSpectralRolloff spectrum sampleRate)
    \<and> isFinite (calculateSpectralFlatness spectrum)
    \<and> (\<exists>v. getBandEnergy spectrum lowFreq highFreq sampleRate = Some (Fin v) \<and> 0 \<le> v \<and> v \<le> 2 ^ 128)
    \<and> returnsFinite (findPeakFrequency spectrum sampleRate peakLow peakHigh)
    \<and> isFinite (calculateSpectralContrast spectrum)
    \<and> isFinite (featureSimilarity feature v1 v2)"
proof -
  define B :: real where "B = 2 ^ 128"
  define n where "n = real (length spectrum)"
  define q where "q = sampleRate / 2"
  have B0: "0 \<le> B" and B1: "B \<le> 2 ^ 128" by (simp_all add: B_def)
  have n0: "0 \<le> n" and n1: "n \<le> 2 ^ 32" unfolding n_def using len_bound[OF ll] by blast+
  have q0: "0 \<le> q" and q1: "q \<le> 2 ^ 32" unfolding q_def using r1 r2 by simp_all
  have ne: "spectrum \<noteq> []" using l10 by auto
  have r0: "0 \<le> sampleRate" and rp: "0 < sampleRate" using r1 by linarith+
  have m0: "0 < F32_MIN" by (rule F32_MIN_pos)
  have mB: "F32_MIN \<le> B" unfolding B_def F32_MIN_def by simp
  have absS: "\<forall>x \<in> set samples. \<bar>x\<bar> \<le> B" unfolding B_def using smp float32_abs by blast
  have absP: "\<forall>x \<in> set spectrum. \<bar>x\<bar> \<le> B" unfolding B_def using spc float32_abs by blast
  have absV: "\<forall>x \<in> set prevSpectrum. \<bar>x\<bar> \<le> B" unfolding B_def using prv float32_abs by blast
  have nonneg: "\<forall>x \<in> set spectrum. (x = 0 \<or> F32_MIN \<le> x) \<and> 0 \<le> x \<and> x \<le> B"
    unfolding B_def using spc float32_nonneg by blast
  have nonneg': "\<forall>x \<in> set spectrum. 0 \<le> x \<and> x \<le> B" using nonneg by blast
  have flat: "\<forall>x \<in> set spectrum. 0 < x \<longrightarrow> F32_MIN \<le> x \<and> x \<le> B \<and> \<bar>ln x\<bar> \<le> 149"
    unfolding B_def using spc float32_flat by blast
  note BB = prod_cap[OF B0 B1 B0 B1]
  note nB = prod_cap[OF n0 n1 B0 B1]
  note qB = prod_cap[OF q0 q1 B0 B1]
  have qM: "q \<le> MAX_VALUE" using q1 pow_cap[of 32] by simp
  have sn: "0 \<le> real (length samples)" "real (length samples) \<le> 2 ^ 32"
    using len_bound[OF sl] by blast+
  have "real (length samples) * (B * B) \<le> MAX_VALUE"
    using prod_cap[OF sn conjunct1[OF BB] conjunct1[OF conjunct2[OF BB]]] by simp
  hence c1: "isFinite (calculateEnergy samples)" by (rule energy_bounded[OF absS B0 sne])
  have c2: "isFinite (calculateZeroCrossingRate samples)" by (rule zcr_bounded[OF sne])
  have nqB: "0 \<le> n * (q * B)" "n * (q * B) \<le> 2 ^ (32 + (32 + 128))" "n * (q * B) \<le> MAX_VALUE"
    using prod_cap[OF n0 n1 conjunct1[OF qB] conjunct1[OF conjunct2[OF qB]]] by simp_all
  have "n * (q * B) * 2 ^ 149 \<le> MAX_VALUE"
    using prod_cap[OF nqB(1,2), of "2 ^ 149" 149] by simp
  hence nqBm: "n * (q * B) / F32_MIN \<le> MAX_VALUE" by (simp only: div_F32_MIN)
  have nBM: "n * B \<le> MAX_VALUE" using nB by simp
  have c3: "isFinite (calculateSpectralCentroid spectrum sampleRate)"
    by (rule centroid_bounded[OF nonneg m0 ne r0 nqBm[unfolded n_def q_def] nqB(3)[unfolded n_def q_def]
          nBM[unfolded n_def] qM[unfolded q_def]])
  define k where "k = real (min (length spectrum) (length prevSpectrum))"
  have "k \<le> n" unfolding k_def n_def by simp
  hence k: "0 \<le> k" "k \<le> 2 ^ 32" using n1 by (simp_all add: k_def)
  have tB: "0 \<le> 2 * B" "2 * B \<le> 2 ^ 129" using B0 B1 by simp_all
  note tt = prod_cap[OF tB tB]
  have "k * (2 * B * (2 * B)) \<le> MAX_VALUE"
    using prod_cap[OF k conjunct1[OF tt] conjunct1[OF conjunct2[OF tt]]] by simp
  hence c4: "isFinite (calculateSpectralFluxBetween spectrum prevSpectrum)"
    unfolding k_def by (rule flux_bounded[OF absP absV B0 ne pne])
  have c5: "isFinite (calculateSpectralRolloff spectrum sampleRate)"
    by (rule rolloff_bounded[OF nonneg' ne r0 qM[unfolded q_def] nBM[unfolded n_def]])
  have L: "(0::real) \<le> 149" "(149::real) \<le> 2 ^ 8" by simp_all
  have nL: "n * 149 \<le> MAX_VALUE" using prod_cap[OF n0 n1 L] by simp
  have c6: "isFinite (calculateSpectralFlatness spectrum)"
    by (rule flatness_bounded[OF flat L(1) m0 mB nL[unfolded n_def] nBM[unfolded n_def]
          conjunct1[OF exp_cap] conjunct2[OF exp_cap]])
  have c7: "\<exists>v. getBandEnergy spectrum lowFreq highFreq sampleRate = Some (Fin v) \<and> 0 \<le> v \<and> v \<le> 2 ^ 128"
    using bandEnergy_bounded[OF absP B0 rp] unfolding B_def .
  define F :: real where "F = 2 ^ 32"
  define N :: real where "N = 2 ^ 32"
  define R :: real where "R = 2 ^ 32"
  have "2 * F * N + 1 + N \<le> 2 ^ 66" unfolding F_def N_def by simp
  moreover have "0 \<le> 2 * F * N + 1 + N" unfolding F_def N_def by simp
  moreover have "0 \<le> R" "R \<le> 2 ^ 32" unfolding R_def by simp_all
  ultimately have PR: "(2 * F * N + 1 + N) * R \<le> MAX_VALUE"
    and P: "2 * F * N + 1 + N \<le> MAX_VALUE"
    using prod_cap[of "2 * F * N + 1 + N" 66 R 32] pow_cap[of 66] by simp_all
  have RM: "R \<le> MAX_VALUE" and FM: "2 * F \<le> MAX_VALUE"
    unfolding R_def F_def using pow_cap[of 32] pow_cap[of 33] by simp_all
  have pl: "\<bar>peakLow\<bar> \<le> 2 ^ 32" and ph: "\<bar>peakHigh\<bar> \<le> 2 ^ 32"
    using pkl pkh by simp_all
  have c8: "returnsFinite (findPeakFrequency spectrum sampleRate peakLow peakHigh)"
    by (rule peakFrequency_bounded[OF r1 r2[folded R_def] ne n1[unfolded n_def, folded N_def]
          pl[folded F_def] ph[folded F_def] RM P PR FM])
  have nBn: "0 \<le> n * B * n" "n * B * n \<le> 2 ^ (32 + 128 + 32)"
    using prod_cap[OF conjunct1[OF nB] conjunct1[OF conjunct2[OF nB]] n0 n1] by simp_all
  have "n * B * n * 2 ^ 149 \<le> MAX_VALUE"
    using prod_cap[OF nBn, of "2 ^ 149" 149] by simp
  hence nBnm: "n * B * n / F32_MIN \<le> MAX_VALUE" by (simp only: div_F32_MIN)
  have c9: "isFinite (calculateSpectralContrast spectrum)"
    by (rule contrast_bounded[OF nonneg m0 l10 nBM[unfolded n_def] nBnm[unfolded n_def]])
  have c10: "isFinite (featureSimilarity feature v1 v2)"
    using featureSimilarity_range[of feature v1 v2] by auto
  show ?thesis using c1 c2 c3 c4 c5 c6 c7 c8 c9 c10 by blast
qed

text \<open>
  Claim C9, amended, at a 512-bin spectrum of ones, a silent previous spectrum and a
  two-sample window at 44100 Hz, for the sub-bass band and a peak search from 0 to 11025 Hz.
\<close>

theorem features_finite_witness:
  "isFinite (calculateEnergy [0.5, -0.5])
    \<and> isFinite (calculateZeroCrossingRate [0.5, -0.5])
    \<and> isFinite (calculateSpectralCentroid (replicate 512 1) 44100)
    \<and> isFinite (calculateSpectralFluxBetween (replicate 512 1) (replicate 512 0))
    \<and> isFinite (calculateSpectralRolloff (replicate 512 1) 44100)
    \<and> isFinite (calculateSpectralFlatness (replicate 512 1))
    \<and> (\<exists>v. getBandEnergy (replicate 512 1) 20 60 44100 = Some (Fin v) \<and> 0 \<le> v \<and> v \<le> 2 ^ 128)
    \<and> returnsFinite (findPeakFrequency (replicate 512 1) 44100 0 11025)
    \<and> isFinite (calculateSpectralContrast (replicate 512 1))
    \<and> isFinite (featureSimilarity ''energy'' 0.5 0.25)"
  using features_finite[where spectrum = "replicate 512 1" and samples = "[0.5, -0.5]"
      and prevSpectrum = "replicate 512 0" and sampleRate = 44100 and lowFreq = 20
      and highFreq = 60 and peakLow = 0 and peakHigh = 11025 and feature = "''energy''"
      and ?v1.0 = "0.5" and ?v2.0 = "0.25"]
  by (simp add: float32_def F32_MIN_def F32_MAX_def)

end
